theory Spec2Isabelle
  imports Complex_Main "HOL-Library.AList" "HOL-Library.Sublist"
begin

section \<open>Data model of the pointer-event dispatcher (events.ts)\<close>

text \<open>
  Objects of the scene graph and DOM elements are known to the dispatcher by identity
  only (\<^verbatim>\<open>===\<close>); both are modelled as natural numbers. A pointer id is the
  \<^verbatim>\<open>pointerId\<close> property of the native event, \<open>None\<close> when the event has none
  (a plain \<^verbatim>\<open>MouseEvent\<close>): a JavaScript \<^verbatim>\<open>Map\<close> accepts \<^verbatim>\<open>undefined\<close> as a key.
\<close>

type_synonym obj = nat
type_synonym dom = nat
type_synonym pointerId = "nat option"

datatype hname =
    onClick | onContextMenu | onDoubleClick | onWheel
  | onPointerDown | onPointerUp | onPointerLeave | onPointerMove
  | onPointerCancel | onLostPointerCapture
  | onPointerOver | onPointerOut | onPointerEnter | onPointerMissed

datatype phase = AT_TARGET | BUBBLING_PHASE

text \<open>
  \<^verbatim>\<open>interface Intersection extends THREE.Intersection { eventObject }\<close>. A raw raycast
  hit has no \<open>eventObject\<close> yet. \<open>index\<close> and \<open>instanceId\<close> are optional numbers.
  \<open>distance\<close> stands for the remaining payload of a hit (distance, point, face), which
  the dispatcher copies and never inspects.
\<close>

record intersection =
  object :: obj
  eventObject :: "obj option"
  index :: "nat option"
  instanceId :: "nat option"
  distance :: nat

record mouseEvent =
  pointerId :: pointerId
  target :: dom
  offsetX :: real
  offsetY :: real

text \<open>
  The synthesized event \<^verbatim>\<open>raycastEvent\<close>: the fields of the current \<open>hit\<close> (spread into
  the event by the source), the phase, the intersection list, \<open>delta\<close> and the native
  event. The closures \<^verbatim>\<open>stopPropagation\<close>, \<^verbatim>\<open>setPointerCapture\<close> and
  \<^verbatim>\<open>releasePointerCapture\<close> are determined by these fields and are interpreted by
  \<open>run_action\<close> below.
\<close>

record threeEvent =
  hit :: intersection
  eventPhase :: phase
  intersections :: "intersection list"
  delta :: nat
  nativeEvent :: mouseEvent

text \<open>
  A handler is user code. What it can do to the dispatcher with the event it is handed are
  the calls it makes on the event's API, in order; that list, as a function of the event,
  is the handler. (\<^verbatim>\<open>hasPointerCapture\<close> only reads the capture map and is no action.)
\<close>

datatype action =
    StopPropagation
  | SetPointerCapture pointerId
  | ReleasePointerCapture pointerId

type_synonym handler = "threeEvent \<Rightarrow> action list"

text \<open>\<^verbatim>\<open>__r3f\<close> of an object: its handler set and its handler count.\<close>

record instance_r3f =
  handlers :: "hname \<Rightarrow> handler option"
  eventCount :: nat

record scene =
  parent :: "obj \<Rightarrow> obj option"
  r3f :: "obj \<Rightarrow> instance_r3f option"
  uuid :: "obj \<Rightarrow> string"

record pointerCaptureData =
  intersection :: intersection
  domTarget :: dom

text \<open>
  What the dispatcher does to the outside, in the order it happens: a call of the handler
  registered under a name on an object, with the phase of the event passed; a call of an
  object's miss handler; a call of the root's miss handler; and the native
  \<^verbatim>\<open>setPointerCapture\<close> and \<^verbatim>\<open>releasePointerCapture\<close> calls on a DOM element.
\<close>

datatype effect =
    Called hname obj phase
  | Missed obj
  | RootMissed
  | NativeSet dom pointerId
  | NativeRelease dom pointerId

text \<open>
  \<^verbatim>\<open>internal\<close> of the store (Interaction Set, initial hit and click position, hover map,
  capture map), together with the log of effects so far.
\<close>

record state =
  interaction :: "obj list"
  initialHit :: "obj option"
  initialClick :: "real \<times> real"
  hovered :: "(pointerId \<times> threeEvent) list"
  capturedMap :: "(pointerId \<times> pointerCaptureData) list"
  log :: "effect list"

text \<open>
  The raycaster is external. \<open>intersectObjects\<close> takes the native event, from which
  \<^verbatim>\<open>prepareRay\<close> sets up the ray, and the candidate objects. \<open>onPointerMissed_root\<close> says
  whether the store has a miss handler of its own.

  Offsets are JavaScript numbers; the dispatcher stores them and hands them to
  \<^verbatim>\<open>calculateDistance\<close>, which computes
  \<^verbatim>\<open>Math.round(Math.sqrt(dx * dx + dy * dy))\<close> in floating point. That arithmetic is not
  modelled: \<open>distance_fp\<close> stands for it, as a function of the event's offsets and the
  recorded click position (a result that is not a number fails the test against \<open>2\<close>, as
  any value above \<open>2\<close> does).
\<close>

record raycaster =
  enabled :: bool
  intersectObjects :: "mouseEvent \<Rightarrow> obj list \<Rightarrow> intersection list"
  filter_rc :: "(intersection list \<Rightarrow> state \<Rightarrow> intersection list) option"

record rootState =
  graph :: scene
  raycaster :: raycaster
  onPointerMissed_root :: bool
  distance_fp :: "real \<times> real \<Rightarrow> real \<times> real \<Rightarrow> nat"

section \<open>Identity of a hit and deduplication\<close>

text \<open>
  \<^verbatim>\<open>makeId\<close> joins strings: the uuid of the event target (the hit object for a raw hit),
  a slash, and the renderings of \<open>index\<close> and \<open>instanceId\<close>, where a number is rendered in
  decimal and a missing field as \<^verbatim>\<open>undefined\<close>. \<open>dedupe\<close> is the filter of \<^verbatim>\<open>intersect\<close>
  with its set \<open>seen\<close>.
\<close>

definition digit :: "nat \<Rightarrow> char" where
  "digit n = ''0123456789'' ! n"

function string_of_nat :: "nat \<Rightarrow> string" where
  "string_of_nat n =
     (if n < 10 then [digit n] else string_of_nat (n div 10) @ [digit (n mod 10)])"
  by pat_completeness auto
termination
  by (relation "measure id") auto

definition string_of_number :: "nat option \<Rightarrow> string" where
  "string_of_number v = (case v of None \<Rightarrow> ''undefined'' | Some n \<Rightarrow> string_of_nat n)"

definition makeId :: "scene \<Rightarrow> intersection \<Rightarrow> string" where
  "makeId g event =
     uuid g (case eventObject event of Some t \<Rightarrow> t | None \<Rightarrow> object event)
       @ ''/'' @ string_of_number (index event) @ string_of_number (instanceId event)"

fun dedupe :: "scene \<Rightarrow> string set \<Rightarrow> intersection list \<Rightarrow> intersection list" where
  "dedupe g seen [] = []"
| "dedupe g seen (item # items) =
     (let id = makeId g item
      in if id \<in> seen then dedupe g seen items
         else item # dedupe g (insert id seen) items)"

section \<open>The registry operations\<close>

text \<open>
  A JavaScript \<^verbatim>\<open>Map\<close> keeps its entries in insertion order with one entry per key:
  it is an association list, \<^verbatim>\<open>get\<close> is \<open>map_of\<close>, \<^verbatim>\<open>set\<close> is \<open>AList.update\<close>
  (in place for a known key, appended for a new one) and \<^verbatim>\<open>delete\<close> is
  \<open>AList.delete\<close>.

  Functions that walk parent links return an option: \<open>None\<close> when the call returns no
  result.
\<close>

partial_function (option) isAncestor :: "scene \<Rightarrow> obj \<Rightarrow> obj option \<Rightarrow> bool option" where
  "isAncestor g ancestor child =
     (case child of
        None \<Rightarrow> Some False
      | Some c \<Rightarrow> if c = ancestor then Some True else isAncestor g ancestor (parent g c))"

definition releaseInternalPointerCapture ::
  "state \<Rightarrow> obj option \<Rightarrow> pointerCaptureData option \<Rightarrow> pointerId \<Rightarrow> state" where
  "releaseInternalPointerCapture s ob captureData pid =
     (let captureData =
            (case captureData of None \<Rightarrow> map_of (capturedMap s) pid | Some c \<Rightarrow> Some c)
      in case captureData of
           None \<Rightarrow> s
         | Some cd \<Rightarrow>
             if ob = None \<or> eventObject (intersection cd) = ob
             then s\<lparr>capturedMap := AList.delete pid (capturedMap s),
                    log := log s @ [NativeRelease (domTarget cd) pid]\<rparr>
             else s)"

text \<open>
  \<^verbatim>\<open>Map.forEach\<close> visits the entries in order. Each callback below deletes at most
  the entry it is visiting, so the iteration is a fold over the entries present at its
  start, each step acting on the current state.
\<close>

definition removeInteractivity :: "state \<Rightarrow> obj \<Rightarrow> state" where
  "removeInteractivity s0 ob =
     (let s1 = s0\<lparr>interaction := filter (\<lambda>x. x \<noteq> ob) (interaction s0)\<rparr>;
          s2 = (if initialHit s1 = Some ob then s1\<lparr>initialHit := None\<rparr> else s1);
          s3 = fold (\<lambda>(pid, v) s.
                       if eventObject (hit v) = Some ob \<or> object (hit v) = ob
                       then s\<lparr>hovered := AList.delete pid (hovered s)\<rparr> else s)
                    (hovered s2) s2
      in fold (\<lambda>(pid, captureData) s.
                 releaseInternalPointerCapture s (Some ob) (Some captureData) pid)
              (capturedMap s3) s3)"

section \<open>Intersection normalisation\<close>

definition calculateDistance :: "rootState \<Rightarrow> mouseEvent \<Rightarrow> state \<Rightarrow> nat" where
  "calculateDistance w ev s = distance_fp w (offsetX ev, offsetY ev) (initialClick s)"

definition has_handler :: "scene \<Rightarrow> obj \<Rightarrow> hname \<Rightarrow> bool" where
  "has_handler g ob name =
     (case r3f g ob of None \<Rightarrow> False | Some i \<Rightarrow> handlers i name \<noteq> None)"

definition filterPointerEvents :: "scene \<Rightarrow> obj list \<Rightarrow> obj list" where
  "filterPointerEvents g objects =
     filter (\<lambda>ob. list_ex (\<lambda>name. has_handler g ob name)
                     [onPointerMove, onPointerOver, onPointerEnter, onPointerOut, onPointerLeave])
            objects"

definition intersect :: "rootState \<Rightarrow> state \<Rightarrow> mouseEvent \<Rightarrow> intersection list" where
  "intersect w s ev =
     (if \<not> enabled (raycaster w) then []
      else
        let eventsObjects = interaction s;
            intersects = dedupe (graph w) {} (intersectObjects (raycaster w) ev eventsObjects);
            intersects = (case filter_rc (raycaster w) of
                            Some f \<Rightarrow> f intersects s
                          | None \<Rightarrow> intersects)
        in map (\<lambda>i. i\<lparr>eventObject := Some (object i)\<rparr>) intersects)"

definition isPointerEvent :: "mouseEvent \<Rightarrow> bool" where
  "isPointerEvent ev = (pointerId ev \<noteq> None)"

definition patchIntersects ::
  "state \<Rightarrow> intersection list \<Rightarrow> mouseEvent \<Rightarrow> intersection list" where
  "patchIntersects s ints ev =
     (if isPointerEvent ev
      then (case map_of (capturedMap s) (pointerId ev) of
              Some captureData \<Rightarrow> intersection captureData # ints
            | None \<Rightarrow> ints)
      else ints)"

section \<open>Handlers and the event API\<close>

text \<open>
  \<open>run_action bound a\<close> is the effect of one call on the API of the event \<open>bound\<close>: the
  closures of \<^verbatim>\<open>raycastEvent\<close> refer to the \<open>hit\<close> and the native event of the loop
  iteration that built it. The boolean is \<^verbatim>\<open>localState.stopped\<close>.
\<close>

fun run_action :: "threeEvent \<Rightarrow> action \<Rightarrow> bool \<times> state \<Rightarrow> bool \<times> state" where
  "run_action bound StopPropagation (stopped, s) = (True, s)"
| "run_action bound (SetPointerCapture pid) (stopped, s) =
     (stopped,
      s\<lparr>capturedMap :=
           AList.update pid
             \<lparr>intersection = hit bound, domTarget = target (nativeEvent bound)\<rparr>
             (capturedMap s),
        hovered := AList.update pid bound (hovered s),
        log := log s @ [NativeSet (target (nativeEvent bound)) pid]\<rparr>)"
| "run_action bound (ReleasePointerCapture pid) (stopped, s) =
     (stopped,
      releaseInternalPointerCapture s (eventObject (hit bound))
        (map_of (capturedMap s) pid) pid)"

text \<open>
  Calling handler \<open>f\<close>, registered under \<open>name\<close> on object \<open>ob\<close>, with the event \<open>data\<close>
  whose closures belong to \<open>bound\<close>: the call is logged, then the handler's actions run.
\<close>

definition invoke ::
  "hname \<Rightarrow> obj \<Rightarrow> handler \<Rightarrow> threeEvent \<Rightarrow> threeEvent \<Rightarrow> bool \<times> state \<Rightarrow> bool \<times> state" where
  "invoke name ob f data bound r =
     fold (run_action bound) (f data)
       (fst r, (snd r)\<lparr>log := log (snd r) @ [Called name ob (eventPhase data)]\<rparr>)"

definition call_opt ::
  "hname \<Rightarrow> obj \<Rightarrow> handler option \<Rightarrow> threeEvent \<Rightarrow> threeEvent \<Rightarrow> bool \<times> state \<Rightarrow> bool \<times> state" where
  "call_opt name ob h data bound r =
     (case h of None \<Rightarrow> r | Some f \<Rightarrow> invoke name ob f data bound r)"

text \<open>
  \<^verbatim>\<open>pointerMissed\<close>: the miss handler receives the native event, not a synthesized
  one, so it has no access to the event API; only the call is recorded.
\<close>

definition pointerMissed :: "scene \<Rightarrow> obj list \<Rightarrow> state \<Rightarrow> state" where
  "pointerMissed g objects s =
     fold (\<lambda>ob s. if has_handler g ob onPointerMissed
                   then s\<lparr>log := log s @ [Missed ob]\<rparr> else s)
          objects s"

section \<open>Bubbling dispatch\<close>

definition no_handlers :: "scene \<Rightarrow> obj \<Rightarrow> bool" where
  "no_handlers g t = (case r3f g t of None \<Rightarrow> True | Some i \<Rightarrow> eventCount i = 0)"

type_synonym callback = "threeEvent \<Rightarrow> state \<Rightarrow> (bool \<times> state) option"

text \<open>
  The \<^verbatim>\<open>for\<close> loop of \<^verbatim>\<open>handleIntersects\<close>. Its variables are \<open>h\<close> (\<^verbatim>\<open>hit\<close>),
  \<open>ph\<close> (\<^verbatim>\<open>eventPhase\<close>) and \<open>stopped\<close> (\<^verbatim>\<open>localState.stopped\<close>); the callback
  returns whether \<^verbatim>\<open>stopPropagation\<close> was called together with the new state.
\<close>

partial_function (option) bubble ::
  "scene \<Rightarrow> callback \<Rightarrow> mouseEvent \<Rightarrow> intersection list \<Rightarrow> nat \<Rightarrow>
   intersection \<Rightarrow> phase \<Rightarrow> bool \<Rightarrow> state \<Rightarrow> state option" where
  "bubble g cb ev ints d h ph stopped s =
     (case eventObject h of
        None \<Rightarrow> Some s
      | Some t \<Rightarrow>
          if stopped then Some s
          else if no_handlers g t
          then bubble g cb ev ints d (h\<lparr>eventObject := parent g t\<rparr>) BUBBLING_PHASE stopped s
          else (case cb \<lparr>hit = h, eventPhase = ph, intersections = ints, delta = d,
                         nativeEvent = ev\<rparr> s of
                  None \<Rightarrow> None
                | Some r \<Rightarrow>
                    bubble g cb ev ints d (h\<lparr>eventObject := parent g t\<rparr>) BUBBLING_PHASE
                      (fst r) (snd r)))"

definition handleIntersects ::
  "scene \<Rightarrow> callback \<Rightarrow> mouseEvent \<Rightarrow> intersection list \<Rightarrow> nat \<Rightarrow> state \<Rightarrow> state option" where
  "handleIntersects g cb ev ints d s =
     (case ints of
        [] \<Rightarrow> Some s
      | h # _ \<Rightarrow> bubble g cb ev ints d h AT_TARGET False s)"

section \<open>Leaving: cancelPointer\<close>

partial_function (option) leave_walk ::
  "scene \<Rightarrow> threeEvent \<Rightarrow> intersection list \<Rightarrow> obj option \<Rightarrow> state \<Rightarrow> state option" where
  "leave_walk g hoveredEvent hits cur s =
     (case cur of
        None \<Rightarrow> Some s
      | Some eo \<Rightarrow>
          leave_walk g hoveredEvent hits (parent g eo)
            (case r3f g eo of
               None \<Rightarrow> s
             | Some i \<Rightarrow>
                 if handlers i onPointerOut \<noteq> None \<or> handlers i onPointerLeave \<noteq> None
                 then
                   let data = hoveredEvent\<lparr>hit := (hit hoveredEvent)\<lparr>eventObject := Some eo\<rparr>,
                                            intersections := hits\<rparr>
                   in snd (call_opt onPointerLeave eo (handlers i onPointerLeave) data hoveredEvent
                            (call_opt onPointerOut eo (handlers i onPointerOut) data hoveredEvent
                               (False, s)))
                 else s))"

definition cancelPointer ::
  "scene \<Rightarrow> pointerId \<Rightarrow> intersection list \<Rightarrow> state \<Rightarrow> state option" where
  "cancelPointer g pid hits s =
     (case map_of (hovered s) pid of
        None \<Rightarrow> Some s
      | Some hoveredEvent \<Rightarrow>
          if (case hits of
                [] \<Rightarrow> True
              | h0 # _ \<Rightarrow>
                  object h0 \<noteq> object (hit hoveredEvent) \<or>
                  index h0 \<noteq> index (hit hoveredEvent) \<or>
                  instanceId h0 \<noteq> instanceId (hit hoveredEvent))
          then leave_walk g hoveredEvent hits (Some (object (hit hoveredEvent)))
                 (s\<lparr>hovered := AList.delete pid (hovered s)\<rparr>)
          else Some s)"

section \<open>handlePointer\<close>

fun filter_opt :: "('a \<Rightarrow> bool option) \<Rightarrow> 'a list \<Rightarrow> 'a list option" where
  "filter_opt p [] = Some []"
| "filter_opt p (x # xs) =
     (case p x of
        None \<Rightarrow> None
      | Some b \<Rightarrow>
          (case filter_opt p xs of
             None \<Rightarrow> None
           | Some ys \<Rightarrow> Some (if b then x # ys else ys)))"

text \<open>
  The callback that \<^verbatim>\<open>handlePointer\<close> passes to \<^verbatim>\<open>handleIntersects\<close>. An event
  without \<open>eventObject\<close> makes the source read a property of \<^verbatim>\<open>undefined\<close> (no result);
  \<open>bubble\<close> never builds one.
\<close>

definition pointer_callback ::
  "scene \<Rightarrow> hname \<Rightarrow> bool \<Rightarrow> mouseEvent \<Rightarrow> callback" where
  "pointer_callback g name isEnteringAndOrLeaving ev data s =
     (case eventObject (hit data) of
        None \<Rightarrow> None
      | Some t \<Rightarrow>
         (case r3f g t of
            None \<Rightarrow> Some (False, s)
          | Some i \<Rightarrow>
             if eventCount i = 0 then Some (False, s)
             else if name = onPointerMove then
               (if isEnteringAndOrLeaving then
                  Some (call_opt onPointerEnter t (handlers i onPointerEnter) data data
                         (call_opt onPointerOver t (handlers i onPointerOver) data data
                            (False,
                             if eventPhase data = AT_TARGET
                             then s\<lparr>hovered := AList.update (pointerId ev) data (hovered s)\<rparr>
                             else s)))
                else Some (call_opt onPointerMove t (handlers i onPointerMove) data data (False, s)))
             else
               (case handlers i name of
                  None \<Rightarrow> Some (False, s)
                | Some f \<Rightarrow>
                    if (name \<noteq> onClick \<and> name \<noteq> onContextMenu \<and> name \<noteq> onDoubleClick)
                       \<or> initialHit s = Some (object (hit data))
                    then
                      (case filter_opt
                              (\<lambda>ob. map_option Not (isAncestor g ob (initialHit s)))
                              (interaction s) of
                         None \<Rightarrow> None
                       | Some objects \<Rightarrow>
                           Some (invoke name t f data data (False, pointerMissed g objects s)))
                    else Some (False, s))))"

definition top_object :: "intersection list \<Rightarrow> obj option" where
  "top_object hits = (case hits of [] \<Rightarrow> None | h # _ \<Rightarrow> Some (object h))"

definition handlePointer :: "rootState \<Rightarrow> hname \<Rightarrow> mouseEvent \<Rightarrow> state \<Rightarrow> state option" where
  "handlePointer w name ev s =
     (if name = onPointerLeave \<or> name = onPointerCancel
      then cancelPointer (graph w) (pointerId ev) [] s
      else if name = onLostPointerCapture
      then Some (releaseInternalPointerCapture s None None (pointerId ev))
      else
        let isPointerMove = (name = onPointerMove);
            isClickEvent = (name = onClick \<or> name = onContextMenu \<or> name = onDoubleClick);
            hits = patchIntersects s (intersect w s ev) ev;
            d = (if isClickEvent then calculateDistance w ev s else 0);
            s1 = (if name = onPointerDown
                  then s\<lparr>initialClick := (offsetX ev, offsetY ev), initialHit := top_object hits\<rparr>
                  else s);
            s2 = (if isClickEvent \<and> hits = [] \<and> d \<le> 2
                  then (let s' = pointerMissed (graph w) (interaction s1) s1
                        in if onPointerMissed_root w then s'\<lparr>log := log s' @ [RootMissed]\<rparr> else s')
                  else s1)
        in if isPointerMove
           then (case cancelPointer (graph w) (pointerId ev) hits s2 of
                   None \<Rightarrow> None
                 | Some s3 \<Rightarrow>
                     handleIntersects (graph w)
                       (pointer_callback (graph w) name
                          (map_option (\<lambda>e. object (hit e)) (map_of (hovered s3) (pointerId ev))
                             \<noteq> top_object hits)
                          ev)
                       ev hits d s3)
           else handleIntersects (graph w) (pointer_callback (graph w) name False ev) ev hits d s2)"

section \<open>Reference notions used in the statements\<close>

text \<open>
  \<open>links g t ps\<close>: \<open>ps\<close> are the first strict ancestors of \<open>t\<close>, nearest first.
  \<open>ancestry g t ps\<close>: \<open>ps\<close> are all the strict ancestors of \<open>t\<close>, so the parent walk
  from \<open>t\<close> reaches a root.
\<close>

fun links :: "scene \<Rightarrow> obj \<Rightarrow> obj list \<Rightarrow> bool" where
  "links g t [] = True"
| "links g t (p # ps) = (parent g t = Some p \<and> links g p ps)"

fun ancestry :: "scene \<Rightarrow> obj \<Rightarrow> obj list \<Rightarrow> bool" where
  "ancestry g t [] = (parent g t = None)"
| "ancestry g t (p # ps) = (parent g t = Some p \<and> ancestry g p ps)"

text \<open>The event that the bubbling loop synthesizes for target \<open>t\<close> in phase \<open>ph\<close>.\<close>

definition synth ::
  "mouseEvent \<Rightarrow> intersection list \<Rightarrow> nat \<Rightarrow> intersection \<Rightarrow> obj \<Rightarrow> phase \<Rightarrow> threeEvent" where
  "synth ev ints d h t ph =
     \<lparr>hit = h\<lparr>eventObject := Some t\<rparr>, eventPhase = ph, intersections = ints, delta = d,
      nativeEvent = ev\<rparr>"

text \<open>
  Section 4.4 of the specification in its own words, along an explicit list of targets:
  the first target is visited in the given phase, every later one in the bubbling phase; a
  target without handlers is skipped; the walk stops after the target whose callback
  stopped propagation. The result carries the stopped flag.
\<close>

fun deliver ::
  "scene \<Rightarrow> callback \<Rightarrow> mouseEvent \<Rightarrow> intersection list \<Rightarrow> nat \<Rightarrow> intersection \<Rightarrow>
   phase \<Rightarrow> obj list \<Rightarrow> state \<Rightarrow> (bool \<times> state) option" where
  "deliver g cb ev ints d h ph [] s = Some (False, s)"
| "deliver g cb ev ints d h ph (t # ts) s =
     (if no_handlers g t then deliver g cb ev ints d h BUBBLING_PHASE ts s
      else (case cb (synth ev ints d h t ph) s of
              None \<Rightarrow> None
            | Some r \<Rightarrow>
                if fst r then Some r
                else deliver g cb ev ints d h BUBBLING_PHASE ts (snd r)))"

section \<open>Example scenes\<close>

text \<open>
  A group \<open>0\<close> with a child mesh \<open>1\<close>, and two further root objects \<open>2\<close> and \<open>3\<close>. The
  handler sets are a parameter; the handler count is the number of handlers, as the
  renderer maintains it.
\<close>

definition ex_parent :: "obj \<Rightarrow> obj option" where
  "ex_parent ob = (if ob = 1 then Some 0 else None)"

definition mk_instance :: "(hname \<times> handler) list \<Rightarrow> instance_r3f" where
  "mk_instance hs = \<lparr>handlers = map_of hs, eventCount = length hs\<rparr>"

definition ex_graph :: "(obj \<Rightarrow> (hname \<times> handler) list) \<Rightarrow> scene" where
  "ex_graph hs = \<lparr>parent = ex_parent, r3f = (\<lambda>ob. Some (mk_instance (hs ob))),
                  uuid = (\<lambda>ob. replicate (Suc ob) CHR ''u'')\<rparr>"

text \<open>A raycaster that reports the given hits, as far as their objects are candidates.\<close>

definition ex_raycaster :: "intersection list \<Rightarrow> raycaster" where
  "ex_raycaster raw =
     \<lparr>enabled = True,
      intersectObjects = (\<lambda>ev cands. filter (\<lambda>h. object h \<in> set cands) raw),
      filter_rc = None\<rparr>"

definition ex_world ::
  "(obj \<Rightarrow> (hname \<times> handler) list) \<Rightarrow> intersection list \<Rightarrow> rootState" where
  "ex_world hs raw =
     \<lparr>graph = ex_graph hs, raycaster = ex_raycaster raw, onPointerMissed_root = False,
      distance_fp = (\<lambda>p q. 0)\<rparr>"

definition raw_hit :: "obj \<Rightarrow> intersection" where
  "raw_hit ob =
     \<lparr>object = ob, eventObject = None, index = None, instanceId = None, distance = 0\<rparr>"

definition indexed_hit :: "nat \<Rightarrow> nat \<Rightarrow> nat \<Rightarrow> intersection" where
  "indexed_hit i j far =
     \<lparr>object = 1, eventObject = None, index = Some i, instanceId = Some j, distance = far\<rparr>"

definition ex_state :: "obj list \<Rightarrow> state" where
  "ex_state objs =
     \<lparr>interaction = objs, initialHit = None, initialClick = (0, 0), hovered = [],
      capturedMap = [], log = []\<rparr>"

definition ex_event :: mouseEvent where
  "ex_event = \<lparr>pointerId = Some 1, target = 9, offsetX = 0, offsetY = 0\<rparr>"

definition quiet :: handler where
  "quiet = (\<lambda>_. [])"

definition stopper :: handler where
  "stopper = (\<lambda>_. [StopPropagation])"

definition no_handler_sets :: "obj \<Rightarrow> (hname \<times> handler) list" where
  "no_handler_sets ob = []"

text \<open>A misconfigured graph: object \<open>0\<close> is its own parent.\<close>

definition cyclic_graph :: scene where
  "cyclic_graph =
     \<lparr>parent = (\<lambda>ob. if ob = 0 then Some 0 else None), r3f = (\<lambda>_. None),
      uuid = (\<lambda>_. [])\<rparr>"

text \<open>
  \<open>related g start anc\<close>: \<open>anc\<close> lists the objects for which the ancestor test against
  \<open>start\<close> (the initial hit, possibly absent) succeeds: \<open>start\<close> itself and its ancestors.
\<close>

definition related :: "scene \<Rightarrow> obj option \<Rightarrow> obj list \<Rightarrow> bool" where
  "related g start anc =
     (case start of
        None \<Rightarrow> anc = []
      | Some c \<Rightarrow> (case anc of [] \<Rightarrow> False | x # ps \<Rightarrow> x = c \<and> ancestry g c ps))"

text \<open>Handler sets for the example scene.\<close>

definition click_sets :: "obj \<Rightarrow> (hname \<times> handler) list" where
  "click_sets ob =
     (if ob = 1 \<or> ob = 2 then [(onClick, quiet)]
      else if ob = 3 then [(onPointerMissed, quiet)] else [])"

definition down_sets :: "obj \<Rightarrow> (hname \<times> handler) list" where
  "down_sets ob =
     (if ob = 0 \<or> ob = 2 then [(onPointerDown, quiet)] else [])"

definition missed_sets :: "obj \<Rightarrow> (hname \<times> handler) list" where
  "missed_sets ob =
     (if ob = 0 \<or> ob = 1 then [(onPointerDown, quiet)]
      else if ob = 3 then [(onPointerMissed, quiet)] else [])"

text \<open>
  Notions for the statements about the registry: a hover entry names an object through its
  hit object or its event target; a capture entry is held by its event target.
\<close>

definition names_object :: "obj \<Rightarrow> threeEvent \<Rightarrow> bool" where
  "names_object ob v = (eventObject (hit v) = Some ob \<or> object (hit v) = ob)"

definition captured_by :: "obj \<Rightarrow> pointerCaptureData \<Rightarrow> bool" where
  "captured_by ob c = (eventObject (intersection c) = Some ob)"

text \<open>
  Notions for the statements about the log: the handler calls among the effects, the
  actions that set a capture, the actions an optional handler performs, and the log entry
  of an optional handler's call.
\<close>

fun is_called :: "effect \<Rightarrow> bool" where
  "is_called (Called name ob ph) = True"
| "is_called e = False"

fun captures :: "action \<Rightarrow> bool" where
  "captures (SetPointerCapture pid) = True"
| "captures a = False"

definition handler_actions :: "handler option \<Rightarrow> threeEvent \<Rightarrow> action list" where
  "handler_actions h data = (case h of None \<Rightarrow> [] | Some f \<Rightarrow> f data)"

definition call_entry :: "hname \<Rightarrow> obj \<Rightarrow> handler option \<Rightarrow> phase \<Rightarrow> effect list" where
  "call_entry name t h ph = (case h of None \<Rightarrow> [] | Some f \<Rightarrow> [Called name t ph])"

text \<open>Further handler sets and registry states for the example scene.\<close>

definition hover_sets :: "obj \<Rightarrow> (hname \<times> handler) list" where
  "hover_sets ob =
     (if ob = 1 then [(onPointerOver, quiet), (onPointerEnter, quiet)]
      else if ob = 0 then [(onPointerOver, quiet), (onPointerMove, quiet)] else [])"

definition up_sets :: "obj \<Rightarrow> (hname \<times> handler) list" where
  "up_sets ob = (if ob = 1 \<or> ob = 2 then [(onPointerUp, quiet)] else [])"

definition capture_on :: "obj \<Rightarrow> pointerCaptureData" where
  "capture_on ob = \<lparr>intersection = (raw_hit ob)\<lparr>eventObject := Some ob\<rparr>, domTarget = 9\<rparr>"

definition captured_state :: "obj list \<Rightarrow> state" where
  "captured_state objs = (ex_state objs)\<lparr>capturedMap := [(Some 1, capture_on 1)]\<rparr>"

definition held_state :: state where
  "held_state =
     (ex_state [1, 0])\<lparr>hovered := [(Some 3, synth ex_event [] 0 (raw_hit 1) 1 AT_TARGET)],
                        capturedMap := [(Some 5, capture_on 1)]\<rparr>"

definition ancestor_capture :: pointerCaptureData where
  "ancestor_capture = \<lparr>intersection = (raw_hit 1)\<lparr>eventObject := Some 0\<rparr>, domTarget = 9\<rparr>"

definition ancestor_capture_state :: state where
  "ancestor_capture_state = (ex_state [1, 0])\<lparr>capturedMap := [(Some 5, ancestor_capture)]\<rparr>"

text \<open>
  Notions for the statements about \<^verbatim>\<open>stopPropagation\<close>: the handlers that the callback
  of \<^verbatim>\<open>handlePointer\<close> calls for an event, in order, each with its name and target;
  whether such a handler calls \<^verbatim>\<open>stopPropagation\<close> on the event; the log entry of its
  call; and the calls of the leave walk on one object.
\<close>

definition opt_handler :: "hname \<Rightarrow> obj \<Rightarrow> instance_r3f \<Rightarrow> (hname \<times> obj \<times> handler) list" where
  "opt_handler n t i = (case handlers i n of None \<Rightarrow> [] | Some f \<Rightarrow> [(n, t, f)])"

definition invoked ::
  "scene \<Rightarrow> hname \<Rightarrow> bool \<Rightarrow> threeEvent \<Rightarrow> state \<Rightarrow> (hname \<times> obj \<times> handler) list" where
  "invoked g name entering data s =
     (case eventObject (hit data) of
        None \<Rightarrow> []
      | Some t \<Rightarrow>
          (case r3f g t of
             None \<Rightarrow> []
           | Some i \<Rightarrow>
               if eventCount i = 0 then []
               else if name = onPointerMove
               then (if entering
                     then opt_handler onPointerOver t i @ opt_handler onPointerEnter t i
                     else opt_handler onPointerMove t i)
               else if (name \<noteq> onClick \<and> name \<noteq> onContextMenu \<and> name \<noteq> onDoubleClick)
                       \<or> initialHit s = Some (object (hit data))
               then opt_handler name t i
               else []))"

definition stops :: "threeEvent \<Rightarrow> hname \<times> obj \<times> handler \<Rightarrow> bool" where
  "stops data c = (StopPropagation \<in> set (snd (snd c) data))"

definition call_of :: "threeEvent \<Rightarrow> hname \<times> obj \<times> handler \<Rightarrow> effect" where
  "call_of data c = Called (fst c) (fst (snd c)) (eventPhase data)"

definition leave_entries :: "scene \<Rightarrow> phase \<Rightarrow> obj \<Rightarrow> effect list" where
  "leave_entries g ph eo =
     (case r3f g eo of
        None \<Rightarrow> []
      | Some i \<Rightarrow> call_entry onPointerOut eo (handlers i onPointerOut) ph
                  @ call_entry onPointerLeave eo (handlers i onPointerLeave) ph)"

text \<open>Handler sets and a hover state for the statements about stopping.\<close>

definition move_sets :: "obj \<Rightarrow> (hname \<times> handler) list" where
  "move_sets ob =
     (if ob = 1 then [(onPointerMove, stopper)]
      else if ob = 0 then [(onPointerMove, quiet)] else [])"

definition out_sets :: "obj \<Rightarrow> (hname \<times> handler) list" where
  "out_sets ob =
     (if ob = 1 then [(onPointerOut, stopper)]
      else if ob = 0 then [(onPointerOut, quiet)] else [])"

definition hovering_state :: state where
  "hovering_state =
     (ex_state [1, 0])
       \<lparr>hovered := [(Some 1, synth ex_event [(raw_hit 1)\<lparr>eventObject := Some 1\<rparr>] 0
                                (raw_hit 1) 1 AT_TARGET)]\<rparr>"

lemmas eval_defs =
  handlePointer_def intersect_def patchIntersects_def isPointerEvent_def makeId_def
  string_of_number_def top_object_def handleIntersects_def bubble.simps no_handlers_def
  pointer_callback_def isAncestor.simps pointerMissed_def has_handler_def invoke_def
  call_opt_def cancelPointer_def leave_walk.simps calculateDistance_def Let_def

lemmas ex_defs =
  ex_parent_def mk_instance_def ex_graph_def ex_raycaster_def ex_world_def raw_hit_def
  ex_state_def ex_event_def quiet_def stopper_def no_handler_sets_def

section \<open>Deduplication\<close>

lemma dedupe_subseq: "subseq (dedupe g seen xs) xs"
  by (induction xs arbitrary: seen) (auto simp: Let_def)

lemma dedupe_fresh_ids: "set (map (makeId g) (dedupe g seen xs)) \<inter> seen = {}"
  by (induction xs arbitrary: seen) (auto simp: Let_def)

lemma dedupe_distinct_ids: "distinct (map (makeId g) (dedupe g seen xs))"
proof (induction xs arbitrary: seen)
  case Nil
  show ?case by simp
next
  case (Cons x xs)
  show ?case
    using Cons.IH[of seen] Cons.IH[of "insert (makeId g x) seen"]
      dedupe_fresh_ids[of g "insert (makeId g x) seen" xs]
    by (auto simp: Let_def)
qed

lemma makeId_same_triple:
  "object a = object b \<Longrightarrow> eventObject a = eventObject b \<Longrightarrow> index a = index b \<Longrightarrow>
   instanceId a = instanceId b \<Longrightarrow> makeId g a = makeId g b"
  by (simp add: makeId_def split: option.splits)

text \<open>
  C5. Two hits on the same object with index 12 and instance 3 follow a hit with index 1
  and instance 23. The id string joins index and instance without a separator, so all
  three hits get the id \<open>uu/123\<close>: both hits of the second triple are dropped, and the
  first occurrence of that triple is not kept.
\<close>

theorem dedupe_id_collision_drops_first_occurrence:
  "makeId (ex_graph no_handler_sets) (indexed_hit 1 23 5) = ''uu/123'' \<and>
   makeId (ex_graph no_handler_sets) (indexed_hit 12 3 6) = ''uu/123'' \<and>
   dedupe (ex_graph no_handler_sets) {}
     [indexed_hit 1 23 5, indexed_hit 12 3 6, indexed_hit 12 3 7] = [indexed_hit 1 23 5]"
  by (simp add: makeId_def ex_graph_def indexed_hit_def string_of_number_def digit_def)

section \<open>Ancestor walks\<close>

lemma isAncestor_ancestry:
  "ancestry g c ps \<Longrightarrow> isAncestor g a (Some c) = Some (a \<in> set (c # ps))"
proof (induction ps arbitrary: c)
  case Nil
  then show ?case
    by (subst isAncestor.simps) (auto simp: isAncestor.simps[of g a None])
next
  case (Cons p ps)
  then show ?case by (subst isAncestor.simps) auto
qed

lemma bubble_None: "eventObject h = None \<Longrightarrow> bubble g cb ev ints d h ph st s = Some s"
  by (subst bubble.simps) simp

lemma bubble_stopped: "bubble g cb ev ints d h ph True s = Some s"
  by (subst bubble.simps) (simp split: option.splits)

lemma bubble_step:
  "bubble g cb ev ints d (h\<lparr>eventObject := Some t\<rparr>) ph False s =
     (if no_handlers g t
      then bubble g cb ev ints d (h\<lparr>eventObject := parent g t\<rparr>) BUBBLING_PHASE False s
      else (case cb (synth ev ints d h t ph) s of
              None \<Rightarrow> None
            | Some r \<Rightarrow>
                bubble g cb ev ints d (h\<lparr>eventObject := parent g t\<rparr>) BUBBLING_PHASE
                  (fst r) (snd r)))"
  by (subst bubble.simps) (simp add: synth_def split: option.splits)

lemma bubble_deliver:
  "links g t ps \<Longrightarrow>
   deliver g cb ev ints d h ph (t # ps) s = Some (stopped, s') \<Longrightarrow>
   stopped \<or> parent g (last (t # ps)) = None \<Longrightarrow>
   bubble g cb ev ints d (h\<lparr>eventObject := Some t\<rparr>) ph False s = Some s'"
proof (induction ps arbitrary: t ph s)
  case Nil
  then show ?case
    by (auto simp: bubble_step bubble_None bubble_stopped split: if_splits option.splits)
next
  case (Cons p ps)
  have p: "parent g t = Some p" and l: "links g p ps"
    using Cons.prems(1) by auto
  have last: "stopped \<or> parent g (last (p # ps)) = None"
    using Cons.prems(3) by simp
  show ?case
  proof (cases "no_handlers g t")
    case True
    with Cons.prems(2)
    have "deliver g cb ev ints d h BUBBLING_PHASE (p # ps) s = Some (stopped, s')"
      by simp
    from Cons.IH[OF l this last] show ?thesis
      using True p by (simp add: bubble_step)
  next
    case False
    show ?thesis
    proof (cases "cb (synth ev ints d h t ph) s")
      case None
      with False Cons.prems(2) show ?thesis by simp
    next
      case (Some r)
      show ?thesis
      proof (cases "fst r")
        case True
        with False Some Cons.prems(2) have "r = (stopped, s')" by simp
        with True False Some show ?thesis
          by (simp add: bubble_step bubble_stopped)
      next
        case nf: False
        with False Some Cons.prems(2)
        have "deliver g cb ev ints d h BUBBLING_PHASE (p # ps) (snd r) = Some (stopped, s')"
          by simp
        from Cons.IH[OF l this last] show ?thesis
          using False Some nf p by (simp add: bubble_step)
      qed
    qed
  qed
qed

lemma isAncestor_None: "isAncestor g a None = Some False"
  by (subst isAncestor.simps) simp

lemma filter_opt_returns:
  "(\<And>x. x \<in> set xs \<Longrightarrow> p x \<noteq> None) \<Longrightarrow> filter_opt p xs \<noteq> None"
  by (induction xs) (auto split: option.splits)

lemma isAncestor_returns:
  assumes "\<forall>x. \<exists>qs. ancestry g x qs"
  shows "isAncestor g a c \<noteq> None"
proof (cases c)
  case None
  then show ?thesis by (simp add: isAncestor_None)
next
  case (Some x)
  from assms obtain qs where "ancestry g x qs" by blast
  from isAncestor_ancestry[OF this, of a] Some show ?thesis by simp
qed

lemma pointer_callback_returns:
  assumes "\<forall>x. \<exists>qs. ancestry g x qs" and "eventObject (hit e) \<noteq> None"
  shows "pointer_callback g name b ev e s \<noteq> None"
proof -
  have "filter_opt (\<lambda>ob. map_option Not (isAncestor g ob (initialHit s))) (interaction s) \<noteq> None"
    by (rule filter_opt_returns) (simp add: isAncestor_returns[OF assms(1)])
  then show ?thesis
    using assms(2) by (auto simp: pointer_callback_def split: option.splits)
qed

lemma bubble_returns:
  assumes cb: "\<forall>e s. eventObject (hit e) \<noteq> None \<longrightarrow> cb e s \<noteq> None"
  shows "ancestry g c ps \<Longrightarrow>
         \<exists>s'. bubble g cb ev ints d (h\<lparr>eventObject := Some c\<rparr>) ph stopped s = Some s'"
proof (induction ps arbitrary: c h ph stopped s)
  case Nil
  have "cb (synth ev ints d h c ph) s \<noteq> None" using cb by (simp add: synth_def)
  then obtain r where r: "cb (synth ev ints d h c ph) s = Some r" by blast
  show ?case
  proof (cases stopped)
    case True
    then show ?thesis by (simp add: bubble_stopped)
  next
    case False
    then show ?thesis using Nil r by (simp add: bubble_step bubble_None)
  qed
next
  case (Cons p ps)
  have p: "parent g c = Some p" and a: "ancestry g p ps"
    using Cons.prems by auto
  have "cb (synth ev ints d h c ph) s \<noteq> None" using cb by (simp add: synth_def)
  then obtain r where r: "cb (synth ev ints d h c ph) s = Some r" by blast
  show ?case
  proof (cases stopped)
    case True
    then show ?thesis by (simp add: bubble_stopped)
  next
    case False
    then show ?thesis
      using r p Cons.IH[OF a, of h BUBBLING_PHASE False s]
        Cons.IH[OF a, of h BUBBLING_PHASE "fst r" "snd r"]
      by (simp add: bubble_step)
  qed
qed

lemma ex_graph_rooted: "\<forall>x. \<exists>qs. ancestry (ex_graph hs) x qs"
proof
  fix x
  show "\<exists>qs. ancestry (ex_graph hs) x qs"
  proof (cases "x = 1")
    case True
    then have "ancestry (ex_graph hs) x [0]" by (simp add: ex_graph_def ex_parent_def)
    then show ?thesis ..
  next
    case False
    then have "ancestry (ex_graph hs) x []" by (simp add: ex_graph_def ex_parent_def)
    then show ?thesis ..
  qed
qed

lemma leave_walk_total:
  "ancestry g c ps \<Longrightarrow> \<exists>s'. leave_walk g hov hits (Some c) s = Some s'"
proof (induction ps arbitrary: c s)
  case Nil
  then show ?case
    by (subst leave_walk.simps) (simp add: leave_walk.simps[of g hov hits None])
next
  case (Cons p ps)
  then show ?case by (subst leave_walk.simps) simp
qed

lemma isAncestor_cyclic_aux:
  assumes "isAncestor g a c = Some y"
  shows "\<not> (g = cyclic_graph \<and> c = Some 0 \<and> a \<noteq> 0)"
  by (rule isAncestor.raw_induct
        [where P = "\<lambda>g a c y. \<not> (g = cyclic_graph \<and> c = Some 0 \<and> a \<noteq> 0)", OF _ assms])
     (auto simp: cyclic_graph_def split: option.splits if_splits)

lemma bubble_cyclic_aux:
  assumes "bubble g cb ev ints d h ph stopped s = Some y"
  shows "\<not> (g = cyclic_graph \<and> eventObject h = Some 0 \<and> \<not> stopped)"
  by (rule bubble.raw_induct
        [where P = "\<lambda>g cb ev ints d h ph stopped s y.
                      \<not> (g = cyclic_graph \<and> eventObject h = Some 0 \<and> \<not> stopped)", OF _ assms])
     (fastforce simp: cyclic_graph_def no_handlers_def split: option.splits if_splits)

lemma leave_cyclic_aux:
  assumes "leave_walk g hov hits c s = Some y"
  shows "\<not> (g = cyclic_graph \<and> c = Some 0)"
  by (rule leave_walk.raw_induct
        [where P = "\<lambda>g hov hits c s y. \<not> (g = cyclic_graph \<and> c = Some 0)", OF _ assms])
     (fastforce simp: cyclic_graph_def split: option.splits if_splits)

text \<open>
  C9, as the code has it. The three walks over parent links (\<open>isAncestor\<close>, the bubbling
  loop and the leave walk of \<open>cancelPointer\<close>) carry no depth bound and no visited set.
  They return whenever the walk from the start object reaches a root: then \<open>isAncestor\<close>
  answers whether the candidate is the start object or one of its ancestors, and the two
  loops return a state. For the bubbling loop the callback has to return on the events
  the loop builds (those with an event target); the callback of \<^verbatim>\<open>handlePointer\<close> does
  so when every object of the graph reaches a root, since it runs the ancestor test from
  the initial hit.
\<close>

theorem ancestor_walks_return_on_rooted_chain:
  assumes "ancestry g c ps"
    and "\<forall>e s. eventObject (hit e) \<noteq> None \<longrightarrow> cb e s \<noteq> None"
  shows "isAncestor g a (Some c) = Some (a \<in> set (c # ps)) \<and>
         (\<exists>s'. bubble g cb ev ints d (h\<lparr>eventObject := Some c\<rparr>) ph stopped s = Some s') \<and>
         ((\<forall>x. \<exists>qs. ancestry g x qs) \<longrightarrow>
            (\<exists>s'. bubble g (pointer_callback g name b ev) ev ints d (h\<lparr>eventObject := Some c\<rparr>)
                     ph stopped s = Some s')) \<and>
         (\<exists>s'. leave_walk g hov hits (Some c) s = Some s')"
proof (intro conjI impI)
  show "isAncestor g a (Some c) = Some (a \<in> set (c # ps))"
    by (rule isAncestor_ancestry[OF assms(1)])
  show "\<exists>s'. bubble g cb ev ints d (h\<lparr>eventObject := Some c\<rparr>) ph stopped s = Some s'"
    by (rule bubble_returns[OF assms(2) assms(1)])
  show "\<exists>s'. leave_walk g hov hits (Some c) s = Some s'"
    by (rule leave_walk_total[OF assms(1)])
next
  assume r: "\<forall>x. \<exists>qs. ancestry g x qs"
  have "\<forall>e s. eventObject (hit e) \<noteq> None \<longrightarrow> pointer_callback g name b ev e s \<noteq> None"
    using pointer_callback_returns[OF r] by blast
  from bubble_returns[OF this assms(1)]
  show "\<exists>s'. bubble g (pointer_callback g name b ev) ev ints d (h\<lparr>eventObject := Some c\<rparr>)
                     ph stopped s = Some s'" .
qed

text \<open>
  In the example scene the mesh \<open>1\<close> and its parent \<open>0\<close> handle pointer-down, so the
  callback is called on both targets and runs the ancestor test for every registered
  object.
\<close>

theorem ancestor_walks_return_witness:
  "ancestry (ex_graph missed_sets) 1 [0] \<and>
   \<not> no_handlers (ex_graph missed_sets) 1 \<and> \<not> no_handlers (ex_graph missed_sets) 0 \<and>
   isAncestor (ex_graph missed_sets) 0 (Some 1) = Some True \<and>
   isAncestor (ex_graph missed_sets) 2 (Some 1) = Some False \<and>
   (\<exists>s'. bubble (ex_graph missed_sets)
            (pointer_callback (ex_graph missed_sets) onPointerDown False ex_event) ex_event [] 0
            ((raw_hit 1)\<lparr>eventObject := Some 1\<rparr>) AT_TARGET False (ex_state [1, 0, 3]) = Some s') \<and>
   map_option log
     (bubble (ex_graph missed_sets)
        (pointer_callback (ex_graph missed_sets) onPointerDown False ex_event) ex_event [] 0
        ((raw_hit 1)\<lparr>eventObject := Some 1\<rparr>) AT_TARGET False (ex_state [1, 0, 3]))
     = Some [Missed 3, Called onPointerDown 1 AT_TARGET,
             Missed 3, Called onPointerDown 0 BUBBLING_PHASE] \<and>
   (\<exists>s'. leave_walk (ex_graph missed_sets)
            (synth ex_event [] 0 (raw_hit 1) 1 AT_TARGET) [] (Some 1) (ex_state [1, 0, 3])
          = Some s')"
proof -
  let ?g = "ex_graph missed_sets"
  let ?cb = "pointer_callback ?g onPointerDown False ex_event"
  have a: "ancestry ?g 1 [0]"
    by (simp add: ex_graph_def ex_parent_def)
  have c: "\<forall>e s. eventObject (hit e) \<noteq> None \<longrightarrow> ?cb e s \<noteq> None"
    using pointer_callback_returns[OF ex_graph_rooted] by blast
  have n: "\<not> no_handlers ?g 1 \<and> \<not> no_handlers ?g 0"
    by (simp add: ex_defs missed_sets_def no_handlers_def)
  have l: "map_option log
     (bubble ?g ?cb ex_event [] 0 ((raw_hit 1)\<lparr>eventObject := Some 1\<rparr>) AT_TARGET False
        (ex_state [1, 0, 3]))
     = Some [Missed 3, Called onPointerDown 1 AT_TARGET,
             Missed 3, Called onPointerDown 0 BUBBLING_PHASE]"
    by (simp add: ex_defs missed_sets_def eval_defs)
  show ?thesis
    using a n l
      ancestor_walks_return_on_rooted_chain[OF a c, where a = 0 and ev = ex_event
        and ints = "[]" and d = 0 and h = "raw_hit 1" and ph = AT_TARGET and stopped = False
        and s = "ex_state [1, 0, 3]" and hov = "synth ex_event [] 0 (raw_hit 1) 1 AT_TARGET"
        and hits = "[]"]
      ancestor_walks_return_on_rooted_chain[OF a c, where a = 2 and ev = ex_event
        and ints = "[]" and d = 0 and h = "raw_hit 1" and ph = AT_TARGET and stopped = False
        and s = "ex_state [1, 0, 3]" and hov = "synth ex_event [] 0 (raw_hit 1) 1 AT_TARGET"
        and hits = "[]"]
    by simp
qed

text \<open>
  On the cyclic graph none of the three walks returns: the ancestor test for an object off
  the cycle, the bubbling loop over targets without handlers, and the leave walk.
\<close>

theorem ancestor_walks_cyclic_counterexample:
  "isAncestor cyclic_graph 1 (Some 0) = None \<and>
   bubble cyclic_graph (\<lambda>e s. Some (False, s)) ex_event [] 0
     ((raw_hit 0)\<lparr>eventObject := Some 0\<rparr>) AT_TARGET False (ex_state []) = None \<and>
   leave_walk cyclic_graph (synth ex_event [] 0 (raw_hit 0) 0 AT_TARGET) [] (Some 0)
     (ex_state []) = None"
proof -
  have "isAncestor cyclic_graph 1 (Some 0) = None"
    using isAncestor_cyclic_aux[of cyclic_graph 1 "Some 0"]
    by (cases "isAncestor cyclic_graph 1 (Some 0)") auto
  moreover have "bubble cyclic_graph (\<lambda>e s. Some (False, s)) ex_event [] 0
     ((raw_hit 0)\<lparr>eventObject := Some 0\<rparr>) AT_TARGET False (ex_state []) = None"
    using bubble_cyclic_aux[of cyclic_graph "\<lambda>e s. Some (False, s)" ex_event "[]" 0
        "(raw_hit 0)\<lparr>eventObject := Some 0\<rparr>" AT_TARGET False "ex_state []"]
    by (cases "bubble cyclic_graph (\<lambda>e s. Some (False, s)) ex_event [] 0
          ((raw_hit 0)\<lparr>eventObject := Some 0\<rparr>) AT_TARGET False (ex_state [])") auto
  moreover have "leave_walk cyclic_graph (synth ex_event [] 0 (raw_hit 0) 0 AT_TARGET) []
     (Some 0) (ex_state []) = None"
    using leave_cyclic_aux[of cyclic_graph "synth ex_event [] 0 (raw_hit 0) 0 AT_TARGET" "[]"
        "Some 0" "ex_state []"]
    by (cases "leave_walk cyclic_graph (synth ex_event [] 0 (raw_hit 0) 0 AT_TARGET) []
          (Some 0) (ex_state [])") auto
  ultimately show ?thesis by blast
qed


section \<open>Handlers, the log and the miss notifications\<close>

lemma pointerMissed_fold:
  "fold (\<lambda>ob s. if has_handler g ob onPointerMissed then s\<lparr>log := log s @ [Missed ob]\<rparr> else s)
        objs s
   = s\<lparr>log := log s @ map Missed (filter (\<lambda>ob. has_handler g ob onPointerMissed) objs)\<rparr>"
  by (induction objs arbitrary: s) auto

lemma pointerMissed_eq:
  "pointerMissed g objs s =
     s\<lparr>log := log s @ map Missed (filter (\<lambda>ob. has_handler g ob onPointerMissed) objs)\<rparr>"
  by (simp add: pointerMissed_def pointerMissed_fold)

lemma filter_opt_Some:
  "(\<And>x. x \<in> set xs \<Longrightarrow> p x = Some (q x)) \<Longrightarrow> filter_opt p xs = Some (filter q xs)"
  by (induction xs) auto

lemma isAncestor_related:
  "related g start anc \<Longrightarrow> isAncestor g a start = Some (a \<in> set anc)"
  by (auto simp: related_def isAncestor_None isAncestor_ancestry
           split: option.splits list.splits)

lemma non_ancestors:
  assumes "related g start anc"
  shows "filter_opt (\<lambda>ob. map_option Not (isAncestor g ob start)) objs =
         Some (filter (\<lambda>ob. ob \<notin> set anc) objs)"
  by (rule filter_opt_Some) (simp add: isAncestor_related[OF assms])

lemma run_action_log: "\<exists>rest. log (snd (run_action b a r)) = log (snd r) @ rest"
  by (cases a; cases r)
     (auto simp: releaseInternalPointerCapture_def Let_def split: option.splits)

lemma fold_run_action_log:
  "\<exists>rest. log (snd (fold (run_action b) acts r)) = log (snd r) @ rest"
proof (induction acts arbitrary: r)
  case Nil
  show ?case by simp
next
  case (Cons a acts)
  from run_action_log[of b a r] obtain r1 where
    1: "log (snd (run_action b a r)) = log (snd r) @ r1" ..
  from Cons[of "run_action b a r"] obtain r2 where
    "log (snd (fold (run_action b) acts (run_action b a r))) =
       log (snd (run_action b a r)) @ r2" ..
  with 1 show ?case by simp
qed

lemma invoke_log:
  "\<exists>rest. log (snd (invoke name t f data bound r)) =
          log (snd r) @ Called name t (eventPhase data) # rest"
  using fold_run_action_log[of bound "f data"
      "(fst r, (snd r)\<lparr>log := log (snd r) @ [Called name t (eventPhase data)]\<rparr>)"]
  by (auto simp: invoke_def)

lemma invoke_quiet_log:
  "log (snd (invoke name t quiet data bound (st, s))) =
     log s @ [Called name t (eventPhase data)]"
  by (simp add: invoke_def quiet_def)

lemma run_action_keeps_stop: "fst r \<Longrightarrow> fst (run_action b a r)"
  by (cases a; cases r) auto

lemma fold_run_action_keeps_stop: "fst r \<Longrightarrow> fst (fold (run_action b) acts r)"
  by (induction acts arbitrary: r) (auto simp: run_action_keeps_stop)

lemma fold_run_action_stops:
  "StopPropagation \<in> set acts \<Longrightarrow> fst (fold (run_action b) acts r)"
proof (induction acts arbitrary: r)
  case Nil
  then show ?case by simp
next
  case (Cons a acts)
  show ?case
  proof (cases "a = StopPropagation")
    case True
    then have "fst (run_action b a r)" by (cases r) simp
    then show ?thesis by (simp add: fold_run_action_keeps_stop)
  next
    case False
    with Cons show ?thesis by simp
  qed
qed

lemma invoke_stops:
  "StopPropagation \<in> set (f data) \<Longrightarrow> fst (invoke name t f data bound r)"
  by (simp add: invoke_def fold_run_action_stops)

section \<open>Pointer-missed before the handlers of press, release and wheel\<close>

text \<open>
  C10. For pointer-down, pointer-up and wheel, whenever the callback reaches a target
  \<open>t\<close> that has handlers and defines a handler \<open>f\<close> for the event, the dispatcher first
  notifies the miss handler of every registered object that is neither the recorded
  initial hit nor one of its ancestors (\<open>anc\<close>: the ancestor test is reflexive), and only
  then calls \<open>f\<close> on \<open>t\<close>. This happens once per such target, so one raw event can deliver
  several miss notifications to the same object (see the witness).
\<close>

theorem missed_precedes_each_handler_call:
  assumes "name = onPointerDown \<or> name = onPointerUp \<or> name = onWheel"
    and "eventObject (hit data) = Some t"
    and "r3f g t = Some i" and "eventCount i \<noteq> 0" and "handlers i name = Some f"
    and "related g (initialHit s) anc"
  shows "pointer_callback g name b ev data s =
           Some (invoke name t f data data
                  (False, s\<lparr>log := log s @ map Missed
                     (filter (\<lambda>ob. has_handler g ob onPointerMissed)
                        (filter (\<lambda>ob. ob \<notin> set anc) (interaction s)))\<rparr>)) \<and>
         (\<exists>rest.
            map_option (\<lambda>r. log (snd r)) (pointer_callback g name b ev data s) =
              Some (log s @ map Missed
                      (filter (\<lambda>ob. has_handler g ob onPointerMissed)
                         (filter (\<lambda>ob. ob \<notin> set anc) (interaction s)))
                    @ Called name t (eventPhase data) # rest))"
proof -
  let ?s1 = "s\<lparr>log := log s @ map Missed
                      (filter (\<lambda>ob. has_handler g ob onPointerMissed)
                         (filter (\<lambda>ob. ob \<notin> set anc) (interaction s)))\<rparr>"
  have cb: "pointer_callback g name b ev data s = Some (invoke name t f data data (False, ?s1))"
    using assms(1-5) non_ancestors[OF assms(6), of "interaction s"]
    by (auto simp: pointer_callback_def pointerMissed_eq)
  from invoke_log[of name t f data data "(False, ?s1)"] obtain rest where
    "log (snd (invoke name t f data data (False, ?s1))) =
       log (snd (False, ?s1)) @ Called name t (eventPhase data) # rest" ..
  with cb show ?thesis by auto
qed

theorem missed_precedes_witness:
  "r3f (ex_graph missed_sets) 0 = Some (mk_instance (missed_sets 0)) \<and>
   handlers (mk_instance (missed_sets 0)) onPointerDown = Some quiet \<and>
   related (ex_graph missed_sets) (Some 1) [1, 0] \<and>
   map_option (\<lambda>r. log (snd r))
     (pointer_callback (ex_graph missed_sets) onPointerDown False ex_event
        (synth ex_event [] 0 (raw_hit 1) 0 BUBBLING_PHASE)
        ((ex_state [1, 0, 3])\<lparr>initialHit := Some 1\<rparr>))
     = Some [Missed 3, Called onPointerDown 0 BUBBLING_PHASE] \<and>
   map_option log
     (handlePointer (ex_world missed_sets [raw_hit 1]) onPointerDown ex_event (ex_state [1, 0, 3]))
     = Some [Missed 3, Called onPointerDown 1 AT_TARGET,
             Missed 3, Called onPointerDown 0 BUBBLING_PHASE]"
proof -
  let ?g = "ex_graph missed_sets"
  let ?data = "synth ex_event [] 0 (raw_hit 1) 0 BUBBLING_PHASE"
  let ?s = "(ex_state [1, 0, 3])\<lparr>initialHit := Some 1\<rparr>"
  have n: "onPointerDown = onPointerDown \<or> onPointerDown = onPointerUp \<or> onPointerDown = onWheel"
    by simp
  have e: "eventObject (hit ?data) = Some 0" by (simp add: synth_def)
  have i: "r3f ?g 0 = Some (mk_instance (missed_sets 0))" by (simp add: ex_defs)
  have c: "eventCount (mk_instance (missed_sets 0)) \<noteq> 0"
    by (simp add: ex_defs missed_sets_def)
  have f: "handlers (mk_instance (missed_sets 0)) onPointerDown = Some quiet"
    by (simp add: ex_defs missed_sets_def)
  have r: "related ?g (Some 1) [1, 0]" by (simp add: related_def ex_defs)
  have r': "related ?g (initialHit ?s) [1, 0]" using r by simp
  note th = missed_precedes_each_handler_call[OF n e i c f r', of False ex_event, THEN conjunct1]
  have cb: "map_option (\<lambda>r. log (snd r))
     (pointer_callback ?g onPointerDown False ex_event ?data ?s)
     = Some [Missed 3, Called onPointerDown 0 BUBBLING_PHASE]"
    using th
    by (simp add: invoke_quiet_log) (simp add: ex_defs missed_sets_def has_handler_def synth_def)
  have full: "map_option log
     (handlePointer (ex_world missed_sets [raw_hit 1]) onPointerDown ex_event (ex_state [1, 0, 3]))
     = Some [Missed 3, Called onPointerDown 1 AT_TARGET,
             Missed 3, Called onPointerDown 0 BUBBLING_PHASE]"
    by (simp add: ex_defs missed_sets_def eval_defs)
  show ?thesis using i f r cb full by simp
qed

section \<open>Click, context menu and double click\<close>

lemma click_callback_blocked:
  assumes "name = onClick \<or> name = onContextMenu \<or> name = onDoubleClick"
    and "initialHit s \<noteq> Some (object h)"
  shows "pointer_callback g name b ev (synth ev ints d h t ph) s = Some (False, s)"
  using assms by (auto simp: pointer_callback_def synth_def split: option.splits)

lemma click_bubble_blocked:
  assumes "name = onClick \<or> name = onContextMenu \<or> name = onDoubleClick"
    and "initialHit s \<noteq> Some (object h)"
  shows "ancestry g t ps \<Longrightarrow>
         bubble g (pointer_callback g name b ev) ev ints d (h\<lparr>eventObject := Some t\<rparr>) ph False s
           = Some s"
proof (induction ps arbitrary: t ph)
  case Nil
  then show ?case
    by (simp add: bubble_step bubble_None click_callback_blocked[OF assms])
next
  case (Cons p ps)
  then show ?case
    by (simp add: bubble_step click_callback_blocked[OF assms])
qed

text \<open>
  C2, as the code has it. For a click-family event with a non-empty intersection list
  \<open>h # rest\<close> whose target chain reaches a root:
  when the top hit object differs from the recorded initial hit, the dispatch changes
  nothing: no click handler is called and no miss notification is delivered;
  when they are equal, every target with handlers that defines a handler for the event
  gets it, after the miss notifications for the registered objects that are neither the
  initial hit nor one of its ancestors.
\<close>

theorem click_handlers_gated_by_initial_hit:
  assumes "name = onClick \<or> name = onContextMenu \<or> name = onDoubleClick"
    and "eventObject h = Some t" and "ancestry g t ps"
  shows "(initialHit s \<noteq> Some (object h) \<longrightarrow>
            handleIntersects g (pointer_callback g name b ev) ev (h # rest) d s = Some s) \<and>
         (initialHit s = Some (object h) \<longrightarrow>
            (\<forall>ta i f ph anc.
               r3f g ta = Some i \<longrightarrow> eventCount i \<noteq> 0 \<longrightarrow> handlers i name = Some f \<longrightarrow>
               related g (initialHit s) anc \<longrightarrow>
               pointer_callback g name b ev (synth ev (h # rest) d h ta ph) s =
                 Some (invoke name ta f (synth ev (h # rest) d h ta ph)
                        (synth ev (h # rest) d h ta ph)
                        (False, s\<lparr>log := log s @ map Missed
                           (filter (\<lambda>ob. has_handler g ob onPointerMissed)
                              (filter (\<lambda>ob. ob \<notin> set anc) (interaction s)))\<rparr>))))"
proof (intro conjI impI allI)
  assume ne: "initialHit s \<noteq> Some (object h)"
  have "h\<lparr>eventObject := Some t\<rparr> = h" using assms(2) by simp
  with click_bubble_blocked[OF assms(1) ne assms(3), of b ev "h # rest" d AT_TARGET]
  show "handleIntersects g (pointer_callback g name b ev) ev (h # rest) d s = Some s"
    by (simp add: handleIntersects_def)
next
  fix ta i f ph anc
  assume eq: "initialHit s = Some (object h)"
    and i: "r3f g ta = Some i" "eventCount i \<noteq> 0" "handlers i name = Some f"
    and rel: "related g (initialHit s) anc"
  show "pointer_callback g name b ev (synth ev (h # rest) d h ta ph) s =
          Some (invoke name ta f (synth ev (h # rest) d h ta ph)
                 (synth ev (h # rest) d h ta ph)
                 (False, s\<lparr>log := log s @ map Missed
                    (filter (\<lambda>ob. has_handler g ob onPointerMissed)
                       (filter (\<lambda>ob. ob \<notin> set anc) (interaction s)))\<rparr>))"
    using i eq assms(1) non_ancestors[OF rel, of "interaction s"]
    by (auto simp: pointer_callback_def pointerMissed_eq synth_def)
qed

theorem click_handlers_gated_witness:
  "ancestry (ex_graph click_sets) 2 [] \<and>
   r3f (ex_graph click_sets) 2 = Some (mk_instance (click_sets 2)) \<and>
   handlers (mk_instance (click_sets 2)) onClick = Some quiet \<and>
   related (ex_graph click_sets) (Some 2) [2] \<and>
   handleIntersects (ex_graph click_sets)
      (pointer_callback (ex_graph click_sets) onClick False ex_event)
      ex_event [(raw_hit 2)\<lparr>eventObject := Some 2\<rparr>] 0
      ((ex_state [1, 2, 3])\<lparr>initialHit := Some 1\<rparr>)
     = Some ((ex_state [1, 2, 3])\<lparr>initialHit := Some 1\<rparr>) \<and>
   map_option (\<lambda>r. log (snd r))
     (pointer_callback (ex_graph click_sets) onClick False ex_event
        (synth ex_event [(raw_hit 2)\<lparr>eventObject := Some 2\<rparr>] 0
           ((raw_hit 2)\<lparr>eventObject := Some 2\<rparr>) 2 AT_TARGET)
        ((ex_state [1, 2, 3])\<lparr>initialHit := Some 2\<rparr>))
     = Some [Missed 3, Called onClick 2 AT_TARGET]"
proof -
  let ?g = "ex_graph click_sets"
  let ?h = "(raw_hit 2)\<lparr>eventObject := Some 2\<rparr>"
  have n: "onClick = onClick \<or> onClick = onContextMenu \<or> onClick = onDoubleClick" by simp
  have e: "eventObject ?h = Some 2" by simp
  have a: "ancestry ?g 2 []" by (simp add: ex_defs)
  have i: "r3f ?g 2 = Some (mk_instance (click_sets 2))" by (simp add: ex_defs)
  have c: "eventCount (mk_instance (click_sets 2)) \<noteq> 0"
    by (simp add: ex_defs click_sets_def)
  have f: "handlers (mk_instance (click_sets 2)) onClick = Some quiet"
    by (simp add: ex_defs click_sets_def)
  have r: "related ?g (Some 2) [2]" by (simp add: related_def ex_defs)
  have ne: "initialHit ((ex_state [1, 2, 3])\<lparr>initialHit := Some 1\<rparr>) \<noteq> Some (object ?h)"
    by (simp add: ex_defs)
  have eq: "initialHit ((ex_state [1, 2, 3])\<lparr>initialHit := Some 2\<rparr>) = Some (object ?h)"
    by (simp add: ex_defs)
  have r': "related ?g (initialHit ((ex_state [1, 2, 3])\<lparr>initialHit := Some 2\<rparr>)) [2]"
    using r by simp
  note th1 = click_handlers_gated_by_initial_hit[OF n e a, THEN conjunct1, rule_format, OF ne,
      of False ex_event "[]" 0]
  note th2 = click_handlers_gated_by_initial_hit[OF n e a, THEN conjunct2, rule_format,
      OF eq i c f r', of False ex_event "[]" 0 AT_TARGET]
  show ?thesis
    using a i f r th1 th2
    by (simp add: invoke_quiet_log)
       (simp add: ex_defs click_sets_def has_handler_def synth_def)
qed

text \<open>
  The claim as stated fails: the press hit object \<open>1\<close>, the click resolves to object \<open>2\<close>
  (which has a click handler), and the registered object \<open>3\<close> has a miss handler and is
  not an ancestor of \<open>1\<close>; the dispatch delivers nothing at all.
\<close>

theorem click_on_other_object_counterexample:
  "has_handler (ex_graph click_sets) 3 onPointerMissed \<and>
   isAncestor (ex_graph click_sets) 3 (Some 1) = Some False \<and>
   map object (patchIntersects ((ex_state [1, 2, 3])\<lparr>initialHit := Some 1\<rparr>)
     (intersect (ex_world click_sets [raw_hit 2]) ((ex_state [1, 2, 3])\<lparr>initialHit := Some 1\<rparr>)
        ex_event) ex_event) = [2] \<and>
   map_option log (handlePointer (ex_world click_sets [raw_hit 2]) onClick ex_event
      ((ex_state [1, 2, 3])\<lparr>initialHit := Some 1\<rparr>)) = Some []"
  by (simp add: ex_defs click_sets_def eval_defs eval_nat_numeral)

section \<open>Bubbling\<close>

text \<open>
  C3. A dispatch with a non-empty intersection list \<open>h # rest\<close> walks the parent chain
  \<open>t # ps\<close> of the top intersection's event target exactly as \<open>deliver\<close> prescribes: the
  event goes first to \<open>t\<close> in the at-target phase and then to each successive parent in
  the bubbling phase; a target without handlers is skipped and the walk moves on to its
  parent; only members of the chain are handed the event; the walk ends at the target
  without parent, or after the target whose callback stopped propagation.
\<close>

theorem bubbling_walks_the_ancestor_chain:
  assumes "eventObject h = Some t" and "links g t ps"
    and "deliver g cb ev (h # rest) d h AT_TARGET (t # ps) s = Some (stopped, s')"
    and "stopped \<or> parent g (last (t # ps)) = None"
  shows "handleIntersects g cb ev (h # rest) d s = Some s'"
proof -
  have "h\<lparr>eventObject := Some t\<rparr> = h" using assms(1) by simp
  with bubble_deliver[OF assms(2) assms(3) assms(4)] show ?thesis
    by (simp add: handleIntersects_def)
qed

text \<open>
  The mesh \<open>1\<close> has no handlers, its parent \<open>0\<close> and the sibling \<open>2\<close> handle pointer-down:
  a hit on \<open>1\<close> reaches \<open>0\<close> in the bubbling phase and nothing else.
\<close>

theorem bubbling_walk_witness:
  "links (ex_graph down_sets) 1 [0] \<and>
   parent (ex_graph down_sets) (last [1, 0]) = None \<and>
   no_handlers (ex_graph down_sets) 1 \<and> \<not> no_handlers (ex_graph down_sets) 2 \<and>
   deliver (ex_graph down_sets) (pointer_callback (ex_graph down_sets) onPointerDown False ex_event)
     ex_event [(raw_hit 1)\<lparr>eventObject := Some 1\<rparr>] 0 ((raw_hit 1)\<lparr>eventObject := Some 1\<rparr>)
     AT_TARGET [1, 0] (ex_state [0, 2])
     = Some (False, (ex_state [0, 2])\<lparr>log := [Called onPointerDown 0 BUBBLING_PHASE]\<rparr>) \<and>
   handleIntersects (ex_graph down_sets)
     (pointer_callback (ex_graph down_sets) onPointerDown False ex_event)
     ex_event [(raw_hit 1)\<lparr>eventObject := Some 1\<rparr>] 0 (ex_state [0, 2])
     = Some ((ex_state [0, 2])\<lparr>log := [Called onPointerDown 0 BUBBLING_PHASE]\<rparr>)"
proof -
  let ?g = "ex_graph down_sets"
  let ?h = "(raw_hit 1)\<lparr>eventObject := Some 1\<rparr>"
  have e: "eventObject ?h = Some 1" by simp
  have l: "links ?g 1 [0]" by (simp add: ex_defs)
  have p: "False \<or> parent ?g (last [1, 0]) = None" by (simp add: ex_defs)
  have d: "deliver ?g (pointer_callback ?g onPointerDown False ex_event) ex_event [?h] 0 ?h
             AT_TARGET [1, 0] (ex_state [0, 2])
           = Some (False, (ex_state [0, 2])\<lparr>log := [Called onPointerDown 0 BUBBLING_PHASE]\<rparr>)"
    by (simp add: ex_defs down_sets_def eval_defs synth_def)
  have n: "no_handlers ?g 1 \<and> \<not> no_handlers ?g 2"
    by (simp add: ex_defs down_sets_def no_handlers_def)
  show ?thesis
    using l p d n bubbling_walks_the_ancestor_chain[OF e l d p] by simp
qed

lemma links_append: "links g t (ps @ qs) \<Longrightarrow> links g t ps"
  by (induction ps arbitrary: t) auto

lemma deliver_stopped_append:
  "deliver g cb ev ints d h ph xs s = Some (True, s') \<Longrightarrow>
   deliver g cb ev ints d h ph (xs @ ys) s = Some (True, s')"
  by (induction xs arbitrary: ph s) (auto split: if_splits option.splits)

section \<open>Entering an object\<close>

lemma run_action_called:
  "filter is_called (log (snd (run_action b a r))) = filter is_called (log (snd r))"
  by (cases a; cases r)
     (auto simp: releaseInternalPointerCapture_def Let_def split: option.splits)

lemma fold_run_action_called:
  "filter is_called (log (snd (fold (run_action b) acts r))) = filter is_called (log (snd r))"
  by (induction acts arbitrary: r) (simp_all add: run_action_called)

lemma run_action_hovered:
  "\<not> captures a \<Longrightarrow> hovered (snd (run_action b a r)) = hovered (snd r)"
  by (cases a; cases r)
     (auto simp: releaseInternalPointerCapture_def Let_def split: option.splits)

lemma fold_run_action_hovered:
  "\<not> list_ex captures acts \<Longrightarrow>
   hovered (snd (fold (run_action b) acts r)) = hovered (snd r)"
  by (induction acts arbitrary: r) (simp_all add: run_action_hovered)

lemma call_opt_called:
  "filter is_called (log (snd (call_opt name t h data bound r))) =
     filter is_called (log (snd r)) @ call_entry name t h (eventPhase data)"
  by (cases h) (simp_all add: call_opt_def call_entry_def invoke_def fold_run_action_called)

lemma call_opt_hovered:
  "\<not> list_ex captures (handler_actions h data) \<Longrightarrow>
   hovered (snd (call_opt name t h data bound r)) = hovered (snd r)"
  by (cases h) (simp_all add: call_opt_def handler_actions_def invoke_def fold_run_action_hovered)

text \<open>
  C7, as the code has it. In a move dispatch that enters a new object, the callback on
  every target of the bubble chain that has handlers, the matched target and each of its
  ancestors alike, calls \<open>pointerover\<close> and then \<open>pointerenter\<close> (as far as the target
  defines them) and never \<open>pointermove\<close>. The dispatcher itself records the hover entry
  for the pointer only in the at-target phase; in the bubbling phase the hover map stays
  as it is unless a handler sets a pointer capture.
\<close>

theorem entering_move_calls_over_then_enter_on_each_target:
  assumes "eventObject (hit data) = Some t" and "r3f g t = Some i" and "eventCount i \<noteq> 0"
  shows "\<exists>st s'.
           pointer_callback g onPointerMove True ev data s = Some (st, s') \<and>
           filter is_called (log s') =
             filter is_called (log s)
               @ call_entry onPointerOver t (handlers i onPointerOver) (eventPhase data)
               @ call_entry onPointerEnter t (handlers i onPointerEnter) (eventPhase data) \<and>
           (\<not> list_ex captures (handler_actions (handlers i onPointerOver) data @
                                 handler_actions (handlers i onPointerEnter) data) \<longrightarrow>
              hovered s' =
                (if eventPhase data = AT_TARGET
                 then AList.update (pointerId ev) data (hovered s) else hovered s))"
proof -
  let ?s0 = "if eventPhase data = AT_TARGET
             then s\<lparr>hovered := AList.update (pointerId ev) data (hovered s)\<rparr> else s"
  let ?r1 = "call_opt onPointerOver t (handlers i onPointerOver) data data (False, ?s0)"
  let ?r2 = "call_opt onPointerEnter t (handlers i onPointerEnter) data data ?r1"
  have cb: "pointer_callback g onPointerMove True ev data s = Some (fst ?r2, snd ?r2)"
    using assms by (simp add: pointer_callback_def)
  have l0: "log ?s0 = log s" by simp
  have c: "filter is_called (log (snd ?r2)) =
             filter is_called (log s)
               @ call_entry onPointerOver t (handlers i onPointerOver) (eventPhase data)
               @ call_entry onPointerEnter t (handlers i onPointerEnter) (eventPhase data)"
    by (simp only: call_opt_called snd_conv l0 append_assoc)
  have h: "hovered (snd ?r2) =
                (if eventPhase data = AT_TARGET
                 then AList.update (pointerId ev) data (hovered s) else hovered s)"
    if "\<not> list_ex captures (handler_actions (handlers i onPointerOver) data @
                                 handler_actions (handlers i onPointerEnter) data)"
    using that by (simp add: call_opt_hovered)
  from cb c h show ?thesis by blast
qed

theorem entering_move_witness:
  "r3f (ex_graph hover_sets) 0 = Some (mk_instance (hover_sets 0)) \<and>
   (\<exists>st s'.
      pointer_callback (ex_graph hover_sets) onPointerMove True ex_event
        (synth ex_event [] 0 (raw_hit 1) 0 BUBBLING_PHASE) (ex_state [1, 0]) = Some (st, s') \<and>
      filter is_called (log s') = [Called onPointerOver 0 BUBBLING_PHASE] \<and>
      hovered s' = [])"
proof -
  let ?g = "ex_graph hover_sets"
  let ?data = "synth ex_event [] 0 (raw_hit 1) 0 BUBBLING_PHASE"
  have e: "eventObject (hit ?data) = Some 0" by (simp add: synth_def)
  have i: "r3f ?g 0 = Some (mk_instance (hover_sets 0))" by (simp add: ex_defs)
  have c: "eventCount (mk_instance (hover_sets 0)) \<noteq> 0" by (simp add: ex_defs hover_sets_def)
  from entering_move_calls_over_then_enter_on_each_target[OF e i c, of ex_event "ex_state [1, 0]"]
  obtain st s' where
    1: "pointer_callback ?g onPointerMove True ex_event ?data (ex_state [1, 0]) = Some (st, s')"
    and 2: "filter is_called (log s') =
             filter is_called (log (ex_state [1, 0]))
               @ call_entry onPointerOver 0 (handlers (mk_instance (hover_sets 0)) onPointerOver)
                   (eventPhase ?data)
               @ call_entry onPointerEnter 0 (handlers (mk_instance (hover_sets 0)) onPointerEnter)
                   (eventPhase ?data)"
    and 3: "\<not> list_ex captures
              (handler_actions (handlers (mk_instance (hover_sets 0)) onPointerOver) ?data @
               handler_actions (handlers (mk_instance (hover_sets 0)) onPointerEnter) ?data) \<longrightarrow>
            hovered s' =
              (if eventPhase ?data = AT_TARGET
               then AList.update (pointerId ex_event) ?data (hovered (ex_state [1, 0]))
               else hovered (ex_state [1, 0]))"
    by blast
  have "filter is_called (log s') = [Called onPointerOver 0 BUBBLING_PHASE]"
    using 2 by (simp add: ex_defs hover_sets_def call_entry_def synth_def)
  moreover have "hovered s' = []"
    using 3 by (simp add: ex_defs hover_sets_def handler_actions_def synth_def)
  ultimately show ?thesis using i 1 by blast
qed

text \<open>
  The claim as stated fails: the mesh \<open>1\<close> is entered, its parent \<open>0\<close> defines
  \<open>pointerover\<close> and \<open>pointermove\<close>; the parent receives \<open>pointerover\<close> and no
  \<open>pointermove\<close>.
\<close>

theorem entering_move_reaches_ancestor_counterexample:
  "has_handler (ex_graph hover_sets) 0 onPointerMove \<and>
   map_option log
     (handlePointer (ex_world hover_sets [raw_hit 1]) onPointerMove ex_event (ex_state [1, 0]))
   = Some [Called onPointerOver 1 AT_TARGET, Called onPointerEnter 1 AT_TARGET,
           Called onPointerOver 0 BUBBLING_PHASE]"
  by (simp add: ex_defs hover_sets_def eval_defs)

section \<open>Stopping propagation\<close>

lemma fold_run_action_flag:
  "fst (fold (run_action b) acts r) = (fst r \<or> StopPropagation \<in> set acts)"
proof (induction acts arbitrary: r)
  case Nil
  show ?case by simp
next
  case (Cons a acts)
  have "fst (run_action b a r) = (fst r \<or> a = StopPropagation)"
    by (cases a; cases r) auto
  with Cons show ?case by auto
qed

lemma invoke_flag:
  "fst (invoke n t f data bound r) = (fst r \<or> StopPropagation \<in> set (f data))"
  by (simp add: invoke_def fold_run_action_flag)

lemma invoke_called:
  "filter is_called (log (snd (invoke n t f data bound r))) =
     filter is_called (log (snd r)) @ [Called n t (eventPhase data)]"
  by (simp add: invoke_def fold_run_action_called)

lemma call_opt_flag:
  "fst (call_opt n t h data bound r) =
     (fst r \<or> StopPropagation \<in> set (handler_actions h data))"
  by (cases h) (simp_all add: call_opt_def handler_actions_def invoke_flag)

lemma opt_handler_stops:
  "list_ex (stops data) (opt_handler n t i) =
     (StopPropagation \<in> set (handler_actions (handlers i n) data))"
  by (simp add: opt_handler_def handler_actions_def stops_def split: option.splits)

lemma opt_handler_calls:
  "map (call_of data) (opt_handler n t i) = call_entry n t (handlers i n) (eventPhase data)"
  by (simp add: opt_handler_def call_entry_def call_of_def split: option.splits)

lemma pointerMissed_called:
  "filter is_called (log (pointerMissed g objs s)) = filter is_called (log s)"
  by (simp add: pointerMissed_eq filter_empty_conv)

lemma pointer_callback_flag_and_calls:
  assumes "pointer_callback g name b ev data s = Some r"
  shows "fst r = list_ex (stops data) (invoked g name b data s) \<and>
         filter is_called (log (snd r)) =
           filter is_called (log s) @ map (call_of data) (invoked g name b data s)"
proof (cases "eventObject (hit data)")
  case None
  with assms show ?thesis by (simp add: pointer_callback_def)
next
  case t: (Some t)
  show ?thesis
  proof (cases "r3f g t")
    case None
    with assms t show ?thesis by (auto simp: pointer_callback_def invoked_def)
  next
    case i: (Some i)
    show ?thesis
    proof (cases "eventCount i = 0")
      case True
      with assms t i show ?thesis by (auto simp: pointer_callback_def invoked_def)
    next
      case c: False
      show ?thesis
      proof (cases "name = onPointerMove")
        case True
        with assms t i c show ?thesis
          by (cases b)
             (auto simp: pointer_callback_def invoked_def call_opt_flag call_opt_called
                opt_handler_stops opt_handler_calls)
      next
        case nm: False
        show ?thesis
        proof (cases "handlers i name")
          case None
          with assms t i c nm show ?thesis
            by (auto simp: pointer_callback_def invoked_def opt_handler_def)
        next
          case f: (Some f)
          show ?thesis
          proof (cases "(name \<noteq> onClick \<and> name \<noteq> onContextMenu \<and> name \<noteq> onDoubleClick)
                       \<or> initialHit s = Some (object (hit data))")
            case False
            with assms t i c nm f show ?thesis
              by (auto simp: pointer_callback_def invoked_def)
          next
            case True
            with assms t i c nm f obtain objs where
              r: "r = invoke name t f data data (False, pointerMissed g objs s)"
              by (auto simp: pointer_callback_def split: option.splits)
            have inv: "invoked g name b data s = [(name, t, f)]"
              using t i c nm f True by (simp add: invoked_def opt_handler_def)
            show ?thesis
              by (simp add: r inv invoke_flag invoke_called pointerMissed_called stops_def
                  call_of_def)
          qed
        qed
      qed
    qed
  qed
qed

lemma deliver_snoc:
  "deliver g cb ev ints d h ph pre s = Some (False, s1) \<Longrightarrow>
   \<not> no_handlers g tk \<Longrightarrow>
   cb (synth ev ints d h tk (if pre = [] then ph else BUBBLING_PHASE)) s1 = Some r \<Longrightarrow>
   fst r \<Longrightarrow>
   deliver g cb ev ints d h ph (pre @ [tk]) s = Some (True, snd r)"
proof (induction pre arbitrary: ph s)
  case Nil
  then show ?case by (cases r) auto
next
  case (Cons x pre)
  show ?case
  proof (cases "no_handlers g x")
    case True
    with Cons.prems(1) have d: "deliver g cb ev ints d h BUBBLING_PHASE pre s = Some (False, s1)"
      by simp
    have c: "cb (synth ev ints d h tk (if pre = [] then BUBBLING_PHASE else BUBBLING_PHASE)) s1
               = Some r"
      using Cons.prems(3) by simp
    from Cons.IH[OF d Cons.prems(2) c Cons.prems(4)] True show ?thesis by simp
  next
    case False
    with Cons.prems(1) obtain r0 where
      r0: "cb (synth ev ints d h x ph) s = Some r0" "\<not> fst r0"
        "deliver g cb ev ints d h BUBBLING_PHASE pre (snd r0) = Some (False, s1)"
      by (auto split: option.splits if_splits)
    have c: "cb (synth ev ints d h tk (if pre = [] then BUBBLING_PHASE else BUBBLING_PHASE)) s1
               = Some r"
      using Cons.prems(3) by simp
    from Cons.IH[OF r0(3) Cons.prems(2) c Cons.prems(4)] False r0(1,2) show ?thesis by simp
  qed
qed

lemma links_prefix:
  "links g t ps \<Longrightarrow> t # ps = xs @ ys \<Longrightarrow> xs \<noteq> [] \<Longrightarrow> links g t (tl xs)"
proof -
  assume l: "links g t ps" and e: "t # ps = xs @ ys" and n: "xs \<noteq> []"
  from n obtain x xs' where x: "xs = x # xs'" by (cases xs) auto
  with e have "ps = xs' @ ys" by simp
  with l have "links g t xs'" by (simp add: links_append)
  with x show ?thesis by simp
qed

lemma leave_walk_calls:
  "ancestry g c ps \<Longrightarrow>
   \<exists>s'. leave_walk g hov hits (Some c) s = Some s' \<and>
        filter is_called (log s') =
          filter is_called (log s) @ concat (map (leave_entries g (eventPhase hov)) (c # ps))"
proof (induction ps arbitrary: c s)
  case Nil
  then show ?case
    by (subst leave_walk.simps)
       (auto simp: leave_walk.simps[of g hov hits None] leave_entries_def call_opt_called
          call_entry_def Let_def split: option.splits)
next
  case (Cons p ps)
  have p: "parent g c = Some p" and a: "ancestry g p ps" using Cons.prems by auto
  let ?s1 = "(case r3f g c of
               None \<Rightarrow> s
             | Some i \<Rightarrow>
                 if handlers i onPointerOut \<noteq> None \<or> handlers i onPointerLeave \<noteq> None
                 then
                   let data = hov\<lparr>hit := (hit hov)\<lparr>eventObject := Some c\<rparr>,
                                            intersections := hits\<rparr>
                   in snd (call_opt onPointerLeave c (handlers i onPointerLeave) data hov
                            (call_opt onPointerOut c (handlers i onPointerOut) data hov
                               (False, s)))
                 else s)"
  have s1: "filter is_called (log ?s1) =
              filter is_called (log s) @ leave_entries g (eventPhase hov) c"
    by (auto simp: leave_entries_def call_opt_called call_entry_def Let_def split: option.splits)
  from Cons.IH[OF a, of ?s1] obtain s' where
    "leave_walk g hov hits (Some p) ?s1 = Some s'"
    "filter is_called (log s') =
       filter is_called (log ?s1) @ concat (map (leave_entries g (eventPhase hov)) (p # ps))"
    by blast
  then show ?case
    using p s1 by (subst leave_walk.simps) simp
qed

text \<open>
  C4, as the code has it. In a dispatch through \<^verbatim>\<open>handleIntersects\<close> with the callback
  of \<^verbatim>\<open>handlePointer\<close>, let the chain of the top target be \<open>pre @ tk # qs\<close>, let no
  callback on \<open>pre\<close> stop propagation, and let one of the handlers called on \<open>tk\<close> (depth
  \<open>k\<close>) call \<^verbatim>\<open>stopPropagation\<close>. Then the flag is set, the state left by the callback on
  \<open>tk\<close> is the result of the dispatch, so that the ancestors \<open>qs\<close> receive nothing whatever
  handlers they have, and all handlers due on \<open>tk\<close> have been called. In general the
  callback reports the flag exactly when one of the handlers it called made the call. The
  flag is local: the next dispatch hands the event to its top target again. The leave walk
  of \<^verbatim>\<open>cancelPointer\<close> does not consult the flag: it calls \<open>pointerout\<close> and
  \<open>pointerleave\<close> on every object of the chain that defines them, whatever the handlers
  do.
\<close>

theorem stopPropagation_in_bubbling_dispatch:
  assumes "eventObject h = Some t" and "links g t ps" and "t # ps = pre @ tk # qs"
    and "deliver g (pointer_callback g name b ev) ev (h # rest) d h AT_TARGET pre s
           = Some (False, s1)"
    and "pointer_callback g name b ev
           (synth ev (h # rest) d h tk (if pre = [] then AT_TARGET else BUBBLING_PHASE)) s1
           = Some r"
    and "list_ex (stops (synth ev (h # rest) d h tk (if pre = [] then AT_TARGET else BUBBLING_PHASE)))
           (invoked g name b
              (synth ev (h # rest) d h tk (if pre = [] then AT_TARGET else BUBBLING_PHASE)) s1)"
  shows "fst r \<and>
         handleIntersects g (pointer_callback g name b ev) ev (h # rest) d s = Some (snd r) \<and>
         filter is_called (log (snd r)) =
           filter is_called (log s1)
             @ map (call_of (synth ev (h # rest) d h tk
                               (if pre = [] then AT_TARGET else BUBBLING_PHASE)))
                 (invoked g name b
                    (synth ev (h # rest) d h tk (if pre = [] then AT_TARGET else BUBBLING_PHASE))
                    s1) \<and>
         (\<forall>data s0 r0.
            pointer_callback g name b ev data s0 = Some r0 \<longrightarrow>
            fst r0 = list_ex (stops data) (invoked g name b data s0)) \<and>
         (\<forall>cb2 ev2 h2 rest2 d2 t2.
            eventObject h2 = Some t2 \<longrightarrow> \<not> no_handlers g t2 \<longrightarrow>
            handleIntersects g cb2 ev2 (h2 # rest2) d2 (snd r) =
              (case cb2 (synth ev2 (h2 # rest2) d2 h2 t2 AT_TARGET) (snd r) of
                 None \<Rightarrow> None
               | Some r2 \<Rightarrow>
                   bubble g cb2 ev2 (h2 # rest2) d2 (h2\<lparr>eventObject := parent g t2\<rparr>)
                     BUBBLING_PHASE (fst r2) (snd r2))) \<and>
         (\<forall>c anc hov hits s0.
            ancestry g c anc \<longrightarrow>
            (\<exists>s'. leave_walk g hov hits (Some c) s0 = Some s' \<and>
                  filter is_called (log s') =
                    filter is_called (log s0)
                      @ concat (map (leave_entries g (eventPhase hov)) (c # anc))))"
proof (intro conjI allI impI)
  let ?cb = "pointer_callback g name b ev"
  let ?data = "synth ev (h # rest) d h tk (if pre = [] then AT_TARGET else BUBBLING_PHASE)"
  note fc = pointer_callback_flag_and_calls[OF assms(5)]
  show stop: "fst r" using fc assms(6) by simp
  show "filter is_called (log (snd r)) =
          filter is_called (log s1) @ map (call_of ?data) (invoked g name b ?data s1)"
    using fc by simp
  have nh: "\<not> no_handlers g tk"
    using assms(6)
    by (auto simp: invoked_def no_handlers_def synth_def split: option.splits if_splits)
  have dl: "deliver g ?cb ev (h # rest) d h AT_TARGET (pre @ [tk]) s = Some (True, snd r)"
    by (rule deliver_snoc[OF assms(4) nh assms(5) stop])
  have e: "t # ps = (pre @ [tk]) @ qs" using assms(3) by simp
  then obtain ps' where ps': "pre @ [tk] = t # ps'" by (cases pre) auto
  have l: "links g t ps'"
    using links_prefix[OF assms(2) e] ps' by simp
  have hh: "h\<lparr>eventObject := Some t\<rparr> = h" using assms(1) by simp
  from bubble_deliver[OF l, of ?cb ev "h # rest" d h AT_TARGET s True "snd r"] dl ps' hh
  show "handleIntersects g ?cb ev (h # rest) d s = Some (snd r)"
    by (simp add: handleIntersects_def)
next
  fix data s0 r0
  assume "pointer_callback g name b ev data s0 = Some r0"
  from pointer_callback_flag_and_calls[OF this]
  show "fst r0 = list_ex (stops data) (invoked g name b data s0)" by simp
next
  fix cb2 ev2 and h2 :: intersection and rest2 d2 t2
  assume t2: "eventObject h2 = Some t2" and n: "\<not> no_handlers g t2"
  have "h2\<lparr>eventObject := Some t2\<rparr> = h2" using t2 by simp
  with bubble_step[where g = g and cb = cb2 and ev = ev2 and ints = "h2 # rest2" and d = d2
      and h = h2 and t = t2 and ph = AT_TARGET and s = "snd r"] n
  show "handleIntersects g cb2 ev2 (h2 # rest2) d2 (snd r) =
              (case cb2 (synth ev2 (h2 # rest2) d2 h2 t2 AT_TARGET) (snd r) of
                 None \<Rightarrow> None
               | Some r2 \<Rightarrow>
                   bubble g cb2 ev2 (h2 # rest2) d2 (h2\<lparr>eventObject := parent g t2\<rparr>)
                     BUBBLING_PHASE (fst r2) (snd r2))"
    by (simp add: handleIntersects_def)
next
  fix c anc hov hits s0
  assume "ancestry g c anc"
  then show "\<exists>s'. leave_walk g hov hits (Some c) s0 = Some s' \<and>
                  filter is_called (log s') =
                    filter is_called (log s0)
                      @ concat (map (leave_entries g (eventPhase hov)) (c # anc))"
    by (rule leave_walk_calls)
qed

text \<open>
  The mesh \<open>1\<close> stops propagation in its move handler; its parent \<open>0\<close> has a move handler
  and is not called. A second dispatch reaches the mesh again.
\<close>

theorem stopPropagation_in_bubbling_witness:
  "links (ex_graph move_sets) 1 [0] \<and>
   \<not> no_handlers (ex_graph move_sets) 0 \<and>
   invoked (ex_graph move_sets) onPointerMove False
     (synth ex_event [(raw_hit 1)\<lparr>eventObject := Some 1\<rparr>] 0
        ((raw_hit 1)\<lparr>eventObject := Some 1\<rparr>) 1 AT_TARGET) (ex_state [1, 0])
     = [(onPointerMove, 1, stopper)] \<and>
   pointer_callback (ex_graph move_sets) onPointerMove False ex_event
     (synth ex_event [(raw_hit 1)\<lparr>eventObject := Some 1\<rparr>] 0
        ((raw_hit 1)\<lparr>eventObject := Some 1\<rparr>) 1 AT_TARGET) (ex_state [1, 0])
     = Some (True, (ex_state [1, 0])\<lparr>log := [Called onPointerMove 1 AT_TARGET]\<rparr>) \<and>
   handleIntersects (ex_graph move_sets)
     (pointer_callback (ex_graph move_sets) onPointerMove False ex_event)
     ex_event [(raw_hit 1)\<lparr>eventObject := Some 1\<rparr>] 0 (ex_state [1, 0])
     = Some ((ex_state [1, 0])\<lparr>log := [Called onPointerMove 1 AT_TARGET]\<rparr>) \<and>
   handleIntersects (ex_graph move_sets)
     (pointer_callback (ex_graph move_sets) onPointerMove False ex_event)
     ex_event [(raw_hit 1)\<lparr>eventObject := Some 1\<rparr>] 0
     ((ex_state [1, 0])\<lparr>log := [Called onPointerMove 1 AT_TARGET]\<rparr>)
     = Some ((ex_state [1, 0])\<lparr>log := [Called onPointerMove 1 AT_TARGET,
                                           Called onPointerMove 1 AT_TARGET]\<rparr>)"
proof -
  let ?g = "ex_graph move_sets"
  let ?h = "(raw_hit 1)\<lparr>eventObject := Some 1\<rparr>"
  let ?cb = "pointer_callback ?g onPointerMove False ex_event"
  let ?s = "ex_state [1, 0]"
  let ?s' = "(ex_state [1, 0])\<lparr>log := [Called onPointerMove 1 AT_TARGET]\<rparr>"
  let ?data = "synth ex_event [?h] 0 ?h 1 AT_TARGET"
  have e: "eventObject ?h = Some 1" by simp
  have l: "links ?g 1 [0]" by (simp add: ex_defs)
  have c: "1 # [0] = [] @ 1 # [0::nat]" by simp
  have n: "\<not> no_handlers ?g 0" by (simp add: ex_defs move_sets_def no_handlers_def)
  have d: "deliver ?g ?cb ex_event [?h] 0 ?h AT_TARGET [] ?s = Some (False, ?s)" by simp
  have ph: "(if ([]::nat list) = [] then AT_TARGET else BUBBLING_PHASE) = AT_TARGET" by simp
  have cb: "?cb (synth ex_event [?h] 0 ?h 1 (if ([]::nat list) = [] then AT_TARGET else BUBBLING_PHASE)) ?s
             = Some (True, ?s')"
    by (simp add: ex_defs move_sets_def eval_defs synth_def)
  have inv: "invoked ?g onPointerMove False ?data ?s = [(onPointerMove, 1, stopper)]"
    by (simp add: invoked_def opt_handler_def ex_defs move_sets_def synth_def)
  have st: "list_ex (stops (synth ex_event [?h] 0 ?h 1
                      (if ([]::nat list) = [] then AT_TARGET else BUBBLING_PHASE)))
              (invoked ?g onPointerMove False
                 (synth ex_event [?h] 0 ?h 1
                    (if ([]::nat list) = [] then AT_TARGET else BUBBLING_PHASE)) ?s)"
    unfolding ph inv by (simp add: stops_def stopper_def)
  note th = stopPropagation_in_bubbling_dispatch[OF e l c d cb st]
  have t2: "handleIntersects ?g ?cb ex_event [?h] 0 ?s = Some ?s'"
    using th[THEN conjunct2, THEN conjunct1] by simp
  have t5: "handleIntersects ?g ?cb ex_event [?h] 0 ?s' =
              (case ?cb (synth ex_event [?h] 0 ?h 1 AT_TARGET) ?s' of
                 None \<Rightarrow> None
               | Some r2 \<Rightarrow>
                   bubble ?g ?cb ex_event [?h] 0 (?h\<lparr>eventObject := parent ?g 1\<rparr>)
                     BUBBLING_PHASE (fst r2) (snd r2))"
    using th[THEN conjunct2, THEN conjunct2, THEN conjunct2, THEN conjunct2, THEN conjunct1,
        rule_format, of ?h 1 ?cb ex_event "[]" 0]
    by (simp add: ex_defs move_sets_def no_handlers_def)
  have again: "handleIntersects ?g ?cb ex_event [?h] 0 ?s' =
      Some ((ex_state [1, 0])\<lparr>log := [Called onPointerMove 1 AT_TARGET,
                                           Called onPointerMove 1 AT_TARGET]\<rparr>)"
    unfolding t5 by (simp add: ex_defs move_sets_def eval_defs synth_def)
  have cb': "?cb ?data ?s = Some (True, ?s')" using cb by simp
  show ?thesis using l n inv cb' t2 again by simp
qed

text \<open>
  The claim as stated fails for the handlers of the leave walk: the pointer enters the
  mesh \<open>1\<close> and then moves off every object; the \<open>pointerout\<close> handler of the mesh calls
  \<^verbatim>\<open>stopPropagation\<close>, and its parent \<open>0\<close> still receives \<open>pointerout\<close>.
\<close>

theorem stopPropagation_in_leave_walk_counterexample:
  "handlers (mk_instance (out_sets 1)) onPointerOut = Some stopper \<and>
   StopPropagation \<in> set (stopper (synth ex_event [] 0 (raw_hit 1) 1 AT_TARGET)) \<and>
   handlePointer (ex_world out_sets [raw_hit 1]) onPointerMove ex_event (ex_state [1, 0])
     = Some hovering_state \<and>
   map_option log (handlePointer (ex_world out_sets []) onPointerMove ex_event hovering_state)
     = Some [Called onPointerOut 1 AT_TARGET, Called onPointerOut 0 AT_TARGET]"
  by (simp add: hovering_state_def out_sets_def ex_defs eval_defs synth_def)

section \<open>Pointer capture\<close>

lemma patchIntersects_captured:
  "pointerId ev = Some p \<Longrightarrow> map_of (capturedMap s) (Some p) = Some cd \<Longrightarrow>
   patchIntersects s ints ev = intersection cd # ints"
  by (simp add: patchIntersects_def isPointerEvent_def)

text \<open>
  C1, as the code has it. When the event's pointer has a capture entry, the stored
  intersection is put in front of the result of \<open>intersect\<close>, which is already
  deduplicated; the list is not deduplicated again. So the capture is first in the
  intersection list of the dispatch, also when the live raycast has no hit, and the
  bubble walk starts at its event target, which receives the event in the at-target
  phase whenever it has handlers.
\<close>

theorem capture_heads_the_deduplicated_hits:
  assumes "pointerId ev = Some p" and "map_of (capturedMap s) (Some p) = Some cd"
  shows "patchIntersects s (intersect w s ev) ev = intersection cd # intersect w s ev \<and>
         (name \<notin> {onPointerLeave, onPointerCancel, onLostPointerCapture, onPointerMove} \<longrightarrow>
            handlePointer w name ev s =
              handleIntersects (graph w) (pointer_callback (graph w) name False ev) ev
                (intersection cd # intersect w s ev)
                (if name = onClick \<or> name = onContextMenu \<or> name = onDoubleClick
                 then calculateDistance w ev s else 0)
                (if name = onPointerDown
                 then s\<lparr>initialClick := (offsetX ev, offsetY ev),
                        initialHit := Some (object (intersection cd))\<rparr>
                 else s)) \<and>
         handlePointer w onPointerMove ev s =
           (case cancelPointer (graph w) (Some p) (intersection cd # intersect w s ev) s of
              None \<Rightarrow> None
            | Some s3 \<Rightarrow>
                handleIntersects (graph w)
                  (pointer_callback (graph w) onPointerMove
                     (map_option (\<lambda>e. object (hit e)) (map_of (hovered s3) (Some p))
                        \<noteq> Some (object (intersection cd)))
                     ev)
                  ev (intersection cd # intersect w s ev) 0 s3) \<and>
         (\<forall>t cb d s0.
            eventObject (intersection cd) = Some t \<longrightarrow> \<not> no_handlers (graph w) t \<longrightarrow>
            handleIntersects (graph w) cb ev (intersection cd # intersect w s ev) d s0 =
              (case cb (synth ev (intersection cd # intersect w s ev) d (intersection cd) t
                          AT_TARGET) s0 of
                 None \<Rightarrow> None
               | Some r \<Rightarrow>
                   bubble (graph w) cb ev (intersection cd # intersect w s ev) d
                     ((intersection cd)\<lparr>eventObject := parent (graph w) t\<rparr>) BUBBLING_PHASE
                     (fst r) (snd r)))"
proof (intro conjI impI allI)
  show p: "patchIntersects s (intersect w s ev) ev = intersection cd # intersect w s ev"
    using assms by (rule patchIntersects_captured)
  show "handlePointer w name ev s =
              handleIntersects (graph w) (pointer_callback (graph w) name False ev) ev
                (intersection cd # intersect w s ev)
                (if name = onClick \<or> name = onContextMenu \<or> name = onDoubleClick
                 then calculateDistance w ev s else 0)
                (if name = onPointerDown
                 then s\<lparr>initialClick := (offsetX ev, offsetY ev),
                        initialHit := Some (object (intersection cd))\<rparr>
                 else s)"
    if "name \<notin> {onPointerLeave, onPointerCancel, onLostPointerCapture, onPointerMove}"
    using that by (simp add: handlePointer_def p top_object_def Let_def)
  show "handlePointer w onPointerMove ev s =
           (case cancelPointer (graph w) (Some p) (intersection cd # intersect w s ev) s of
              None \<Rightarrow> None
            | Some s3 \<Rightarrow>
                handleIntersects (graph w)
                  (pointer_callback (graph w) onPointerMove
                     (map_option (\<lambda>e. object (hit e)) (map_of (hovered s3) (Some p))
                        \<noteq> Some (object (intersection cd)))
                     ev)
                  ev (intersection cd # intersect w s ev) 0 s3)"
    using assms(1)
    by (simp add: handlePointer_def p top_object_def Let_def cong: option.case_cong)
next
  fix t cb d s0
  assume t: "eventObject (intersection cd) = Some t" and n: "\<not> no_handlers (graph w) t"
  have "(intersection cd)\<lparr>eventObject := Some t\<rparr> = intersection cd" using t by simp
  with bubble_step[where g = "graph w" and cb = cb and ev = ev
      and ints = "intersection cd # intersect w s ev" and d = d and h = "intersection cd"
      and t = t and ph = AT_TARGET and s = s0] n
  show "handleIntersects (graph w) cb ev (intersection cd # intersect w s ev) d s0 =
              (case cb (synth ev (intersection cd # intersect w s ev) d (intersection cd) t
                          AT_TARGET) s0 of
                 None \<Rightarrow> None
               | Some r \<Rightarrow>
                   bubble (graph w) cb ev (intersection cd # intersect w s ev) d
                     ((intersection cd)\<lparr>eventObject := parent (graph w) t\<rparr>) BUBBLING_PHASE
                     (fst r) (snd r))"
    by (simp add: handleIntersects_def)
qed

text \<open>
  Object \<open>1\<close> holds the capture for pointer \<open>1\<close>; the raycast returns no hit; the
  pointer-up still goes to object \<open>1\<close>.
\<close>

theorem capture_heads_hits_witness:
  "pointerId ex_event = Some 1 \<and>
   map_of (capturedMap (captured_state [1, 2])) (Some 1) = Some (capture_on 1) \<and>
   intersect (ex_world up_sets []) (captured_state [1, 2]) ex_event = [] \<and>
   patchIntersects (captured_state [1, 2])
     (intersect (ex_world up_sets []) (captured_state [1, 2]) ex_event) ex_event
     = [intersection (capture_on 1)] \<and>
   map_option log (handlePointer (ex_world up_sets []) onPointerUp ex_event (captured_state [1, 2]))
     = Some [Called onPointerUp 1 AT_TARGET]"
proof -
  let ?w = "ex_world up_sets []"
  let ?s = "captured_state [1, 2]"
  have p: "pointerId ex_event = Some 1" by (simp add: ex_defs)
  have c: "map_of (capturedMap ?s) (Some 1) = Some (capture_on 1)"
    by (simp add: captured_state_def ex_defs)
  have z: "intersect ?w ?s ex_event = []"
    by (simp add: intersect_def captured_state_def ex_defs)
  note th = capture_heads_the_deduplicated_hits[OF p c, of ?w onPointerUp]
  have 1: "patchIntersects ?s (intersect ?w ?s ex_event) ex_event = [intersection (capture_on 1)]"
    using th[THEN conjunct1] z by simp
  have 2: "handlePointer ?w onPointerUp ex_event ?s =
             handleIntersects (graph ?w) (pointer_callback (graph ?w) onPointerUp False ex_event)
               ex_event [intersection (capture_on 1)] 0 ?s"
    using th[THEN conjunct2, THEN conjunct1] z by simp
  have 3: "map_option log (handlePointer ?w onPointerUp ex_event ?s)
             = Some [Called onPointerUp 1 AT_TARGET]"
    unfolding 2
    by (simp add: captured_state_def capture_on_def ex_defs up_sets_def eval_defs)
  show ?thesis using p c z 1 3 by simp
qed

text \<open>
  The claim as stated fails: with a live hit on the capturing object the dispatch list
  holds the same intersection twice, which a deduplication after the prepend would
  collapse.
\<close>

theorem capture_prepended_after_dedup_counterexample:
  "patchIntersects (captured_state [1, 2])
     (intersect (ex_world up_sets [raw_hit 1]) (captured_state [1, 2]) ex_event) ex_event
     = [(raw_hit 1)\<lparr>eventObject := Some 1\<rparr>, (raw_hit 1)\<lparr>eventObject := Some 1\<rparr>] \<and>
   dedupe (ex_graph up_sets) {}
     [(raw_hit 1)\<lparr>eventObject := Some 1\<rparr>, (raw_hit 1)\<lparr>eventObject := Some 1\<rparr>]
     = [(raw_hit 1)\<lparr>eventObject := Some 1\<rparr>]"
  by (simp add: captured_state_def capture_on_def ex_defs eval_defs)

section \<open>Raycast candidates\<close>

text \<open>
  C6, as the code has it. \<open>intersect\<close> hands the whole Interaction Set to the raycaster;
  \<open>filterPointerEvents\<close> is defined but not applied. The result does not depend on the
  handler sets of the objects, and the first hit the raycaster reports for the full
  Interaction Set is the first intersection of the result.
\<close>

theorem intersect_ignores_handlers:
  "intersect (w\<lparr>graph := (graph w)\<lparr>r3f := r\<rparr>\<rparr>) s ev = intersect w s ev \<and>
   (enabled (raycaster w) \<longrightarrow> filter_rc (raycaster w) = None \<longrightarrow>
      (\<forall>h raw. intersectObjects (raycaster w) ev (interaction s) = h # raw \<longrightarrow>
         (\<exists>more. intersect w s ev = h\<lparr>eventObject := Some (object h)\<rparr> # more)))"
proof -
  have m: "makeId ((graph w)\<lparr>r3f := r\<rparr>) = makeId (graph w)"
    by (rule ext) (simp add: makeId_def)
  have d: "dedupe ((graph w)\<lparr>r3f := r\<rparr>) seen xs = dedupe (graph w) seen xs" for seen xs
    by (induction xs arbitrary: seen) (simp_all add: m Let_def)
  show ?thesis
    by (auto simp: intersect_def d Let_def)
qed

theorem intersect_ignores_handlers_witness:
  "enabled (raycaster (ex_world click_sets [raw_hit 2])) \<and>
   filter_rc (raycaster (ex_world click_sets [raw_hit 2])) = None \<and>
   intersectObjects (raycaster (ex_world click_sets [raw_hit 2])) ex_event
     (interaction (ex_state [1, 2, 3])) = [raw_hit 2] \<and>
   (\<exists>more. intersect (ex_world click_sets [raw_hit 2]) (ex_state [1, 2, 3]) ex_event
            = (raw_hit 2)\<lparr>eventObject := Some (object (raw_hit 2))\<rparr> # more)"
proof -
  let ?w = "ex_world click_sets [raw_hit 2]"
  have e: "enabled (raycaster ?w)" and f: "filter_rc (raycaster ?w) = None"
    and r: "intersectObjects (raycaster ?w) ex_event (interaction (ex_state [1, 2, 3])) = [raw_hit 2]"
    by (simp_all add: ex_defs)
  from intersect_ignores_handlers[where w = ?w and s = "ex_state [1, 2, 3]" and ev = ex_event,
      THEN conjunct2, rule_format, OF e f r]
  show ?thesis using e f r by simp
qed

text \<open>
  The claim as stated fails: no registered object has a pointer-family handler (the
  filter would leave no candidate), yet the hit on object \<open>2\<close>, which only handles
  clicks, is reported.
\<close>

theorem unfiltered_candidates_counterexample:
  "filterPointerEvents (ex_graph click_sets) [1, 2, 3] = [] \<and>
   map object (intersect (ex_world click_sets [raw_hit 2]) (ex_state [1, 2, 3]) ex_event) = [2]"
  by (simp add: filterPointerEvents_def ex_defs click_sets_def eval_defs)

section \<open>Removing an object\<close>

lemma delete_filter: "AList.delete k xs = filter (\<lambda>e. fst e \<noteq> k) xs"
  by (induction xs) auto

lemma hover_fold:
  "fold (\<lambda>(pid, v) s. if P v then s\<lparr>hovered := AList.delete pid (hovered s)\<rparr> else s) xs s
   = s\<lparr>hovered := filter (\<lambda>e. fst e \<notin> set (map fst (filter (\<lambda>x. P (snd x)) xs)))
                     (hovered s)\<rparr>"
proof (induction xs arbitrary: s)
  case Nil
  show ?case by simp
next
  case (Cons x xs)
  obtain pid v where x: "x = (pid, v)" by (cases x)
  show ?case
  proof (cases "P v")
    case True
    have "filter (\<lambda>e. fst e \<notin> set (map fst (filter (\<lambda>x. P (snd x)) xs)))
            (filter (\<lambda>e. fst e \<noteq> pid) (hovered s))
          = filter (\<lambda>e. fst e \<notin> set (map fst (filter (\<lambda>x. P (snd x)) (x # xs)))) (hovered s)"
      using True by (auto simp: x intro!: filter_cong)
    then show ?thesis using True by (simp add: x Cons delete_filter)
  next
    case False
    then show ?thesis by (simp add: x Cons)
  qed
qed

lemma filter_keys_distinct:
  "distinct (map fst xs) \<Longrightarrow>
   filter (\<lambda>e. fst e \<notin> set (map fst (filter (\<lambda>x. P (snd x)) xs))) xs
     = filter (\<lambda>e. \<not> P (snd e)) xs"
  by (rule filter_cong) (auto simp: image_iff dest: eq_key_imp_eq_value)

lemma release_step:
  "releaseInternalPointerCapture s (Some ob) (Some c) pid =
     (if captured_by ob c
      then s\<lparr>capturedMap := filter (\<lambda>e. fst e \<noteq> pid) (capturedMap s),
             log := log s @ [NativeRelease (domTarget c) pid]\<rparr>
      else s)"
  by (simp add: releaseInternalPointerCapture_def captured_by_def delete_filter)

lemma release_fold_aux:
  "fold (\<lambda>(pid, c) s.
           if captured_by ob c
           then s\<lparr>capturedMap := filter (\<lambda>e. fst e \<noteq> pid) (capturedMap s),
                  log := log s @ [NativeRelease (domTarget c) pid]\<rparr>
           else s) xs s
   = s\<lparr>capturedMap :=
          filter (\<lambda>e. fst e \<notin> set (map fst (filter (\<lambda>x. captured_by ob (snd x)) xs)))
            (capturedMap s),
        log := log s @ map (\<lambda>(p, c). NativeRelease (domTarget c) p)
                          (filter (\<lambda>e. captured_by ob (snd e)) xs)\<rparr>"
proof (induction xs arbitrary: s)
  case Nil
  show ?case by simp
next
  case (Cons x xs)
  obtain pid c where x: "x = (pid, c)" by (cases x)
  show ?case
  proof (cases "captured_by ob c")
    case True
    have "filter (\<lambda>e. fst e \<notin> set (map fst (filter (\<lambda>x. captured_by ob (snd x)) xs)))
            (filter (\<lambda>e. fst e \<noteq> pid) (capturedMap s))
          = filter (\<lambda>e. fst e \<notin> set (map fst (filter (\<lambda>x. captured_by ob (snd x)) (x # xs))))
              (capturedMap s)"
      using True by (auto simp: x intro!: filter_cong)
    then show ?thesis using True by (simp add: x Cons)
  next
    case False
    then show ?thesis by (simp add: x Cons)
  qed
qed

lemma release_fold:
  "fold (\<lambda>(pid, c) s. releaseInternalPointerCapture s (Some ob) (Some c) pid) xs s
   = s\<lparr>capturedMap :=
          filter (\<lambda>e. fst e \<notin> set (map fst (filter (\<lambda>x. captured_by ob (snd x)) xs)))
            (capturedMap s),
        log := log s @ map (\<lambda>(p, c). NativeRelease (domTarget c) p)
                          (filter (\<lambda>e. captured_by ob (snd e)) xs)\<rparr>"
  unfolding release_step by (rule release_fold_aux)

text \<open>
  C8, as the code has it. \<open>removeInteractivity\<close> removes the object from the Interaction
  Set, clears the initial hit if it is the object, deletes exactly the hover entries whose
  hit object or event target is the object, and releases exactly the capture entries
  whose event target is the object, with one native release call for each of them. (The
  keys of a map are distinct.) A capture entry held by another target stays, also when
  the object is the hit object it recorded.
\<close>

theorem removeInteractivity_purges_object:
  assumes "distinct (map fst (hovered s))" and "distinct (map fst (capturedMap s))"
  shows "interaction (removeInteractivity s ob) = filter (\<lambda>x. x \<noteq> ob) (interaction s) \<and>
         ob \<notin> set (interaction (removeInteractivity s ob)) \<and>
         initialHit (removeInteractivity s ob) \<noteq> Some ob \<and>
         hovered (removeInteractivity s ob) =
           filter (\<lambda>e. \<not> names_object ob (snd e)) (hovered s) \<and>
         capturedMap (removeInteractivity s ob) =
           filter (\<lambda>e. \<not> captured_by ob (snd e)) (capturedMap s) \<and>
         log (removeInteractivity s ob) =
           log s @ map (\<lambda>(p, c). NativeRelease (domTarget c) p)
                     (filter (\<lambda>e. captured_by ob (snd e)) (capturedMap s))"
proof -
  define s2 where "s2 = (if initialHit s = Some ob
     then s\<lparr>interaction := filter (\<lambda>x. x \<noteq> ob) (interaction s), initialHit := None\<rparr>
     else s\<lparr>interaction := filter (\<lambda>x. x \<noteq> ob) (interaction s)\<rparr>)"
  define s3 where "s3 = s2\<lparr>hovered := filter (\<lambda>e. \<not> names_object ob (snd e)) (hovered s)\<rparr>"
  have s2: "hovered s2 = hovered s" "capturedMap s2 = capturedMap s" "log s2 = log s"
    "interaction s2 = filter (\<lambda>x. x \<noteq> ob) (interaction s)" "initialHit s2 \<noteq> Some ob"
    by (simp_all add: s2_def)
  have h: "fold (\<lambda>(pid, v) s.
                   if eventObject (hit v) = Some ob \<or> object (hit v) = ob
                   then s\<lparr>hovered := AList.delete pid (hovered s)\<rparr> else s)
                (hovered s2) s2 = s3"
    using hover_fold[of "names_object ob" "hovered s" s2]
      filter_keys_distinct[OF assms(1), of "names_object ob"]
    by (simp add: names_object_def[abs_def] s3_def s2)
  have r: "removeInteractivity s ob =
           fold (\<lambda>(pid, c) s. releaseInternalPointerCapture s (Some ob) (Some c) pid)
             (capturedMap s) s3"
  proof -
    have "removeInteractivity s ob =
           fold (\<lambda>(pid, c) s. releaseInternalPointerCapture s (Some ob) (Some c) pid)
             (capturedMap s3) s3"
      unfolding removeInteractivity_def Let_def using h by (simp add: s2_def)
    then show ?thesis by (simp add: s3_def s2)
  qed
  show ?thesis
    unfolding r release_fold
    using filter_keys_distinct[OF assms(2), of "captured_by ob"]
    by (simp add: s3_def s2)
qed

theorem removeInteractivity_witness:
  "distinct (map fst (hovered held_state)) \<and>
   distinct (map fst (capturedMap held_state)) \<and>
   interaction (removeInteractivity held_state 1) = [0] \<and>
   hovered (removeInteractivity held_state 1) = [] \<and>
   capturedMap (removeInteractivity held_state 1) = [] \<and>
   log (removeInteractivity held_state 1) = [NativeRelease 9 (Some 5)]"
proof -
  have d1: "distinct (map fst (hovered held_state))"
    and d2: "distinct (map fst (capturedMap held_state))"
    by (simp_all add: held_state_def ex_defs)
  show ?thesis
    using d1 d2 removeInteractivity_purges_object[OF d1 d2, of 1]
    by (simp add: held_state_def capture_on_def names_object_def captured_by_def synth_def ex_defs)
qed

text \<open>
  The claim as stated fails: the group \<open>0\<close> captured pointer \<open>5\<close> on a hit of its child
  \<open>1\<close>. Removing \<open>1\<close> leaves the entry in place, so the capture map still refers to
  object \<open>1\<close>, which is no longer in the Interaction Set.
\<close>

theorem removeInteractivity_keeps_ancestor_capture_counterexample:
  "set (interaction ancestor_capture_state) = {0, 1} \<and>
   object (intersection ancestor_capture) = 1 \<and>
   eventObject (intersection ancestor_capture) = Some 0 \<and>
   interaction (removeInteractivity ancestor_capture_state 1) = [0] \<and>
   capturedMap (removeInteractivity ancestor_capture_state 1) = [(Some 5, ancestor_capture)] \<and>
   log (removeInteractivity ancestor_capture_state 1) = []"
  by (auto simp: ancestor_capture_state_def ancestor_capture_def removeInteractivity_def
      releaseInternalPointerCapture_def ex_defs Let_def)

end
